theory Spec2Isabelle
  imports Main "HOL-Library.AList" "HOL-Library.Char_ord" "HOL-Library.Multiset"
    "HOL-Library.Product_Lexorder"
begin

section \<open>Strings of the Go standard library\<close>

text \<open>
  A Go string is a sequence of bytes; it is modelled as \<open>string\<close> (a list of
  \<open>char\<close>, one per byte). The functions of package \<open>strings\<close>, \<open>unicode\<close>,
  \<open>path/filepath\<close>, \<open>bufio\<close> and \<open>regexp\<close> that the program calls are
  written out on bytes. Letter case and white space follow the ASCII part of the Unicode
  tables: a byte of \<open>0x80\<close> and above is neither a letter nor a space here and is
  copied unchanged.
\<close>

definition is_space :: "char \<Rightarrow> bool" where
  "is_space c = (c = CHR 0x09 \<or> c = CHR 0x0A \<or> c = CHR 0x0B \<or> c = CHR 0x0C
                 \<or> c = CHR 0x0D \<or> c = CHR '' '')"

definition is_upper :: "char \<Rightarrow> bool" where
  "is_upper c = (CHR ''A'' \<le> c \<and> c \<le> CHR ''Z'')"

definition is_lower :: "char \<Rightarrow> bool" where
  "is_lower c = (CHR ''a'' \<le> c \<and> c \<le> CHR ''z'')"

definition is_digit :: "char \<Rightarrow> bool" where
  "is_digit c = (CHR ''0'' \<le> c \<and> c \<le> CHR ''9'')"

text \<open>\<open>unicode.ToLower\<close> and \<open>unicode.ToUpper\<close> on one ASCII character.\<close>

definition to_lower_rune :: "char \<Rightarrow> char" where
  "to_lower_rune c = (if is_upper c then char_of (of_char c + (32::int)) else c)"

definition to_upper_rune :: "char \<Rightarrow> char" where
  "to_upper_rune c = (if is_lower c then char_of (of_char c - (32::int)) else c)"

text \<open>
  \<open>strings.ToLower\<close>, for ASCII: a byte of \<open>0x80\<close> and above stays as it is,
  where Go lowers the letters of other scripts and rewrites invalid UTF-8.
\<close>

definition to_lower :: "string \<Rightarrow> string" where
  "to_lower s = map to_lower_rune s"

text \<open>\<open>strings.HasPrefix\<close>, \<open>strings.HasSuffix\<close>, \<open>strings.Contains\<close>.\<close>

definition has_prefix :: "string \<Rightarrow> string \<Rightarrow> bool" where
  "has_prefix s p = (take (length p) s = p)"

definition has_suffix :: "string \<Rightarrow> string \<Rightarrow> bool" where
  "has_suffix s p = (length p \<le> length s \<and> drop (length s - length p) s = p)"

primrec contains :: "string \<Rightarrow> string \<Rightarrow> bool" where
  "contains [] sub = (sub = [])"
| "contains (c # cs) sub = (has_prefix (c # cs) sub \<or> contains cs sub)"

text \<open>
  \<open>strings.Index\<close>, \<open>strings.IndexByte\<close> and \<open>strings.LastIndexByte\<close>: the
  position of the first (last) occurrence, \<open>-1\<close> when there is none.
\<close>

primrec index :: "string \<Rightarrow> string \<Rightarrow> int" where
  "index [] sub = (if sub = [] then 0 else -1)"
| "index (c # cs) sub =
     (if has_prefix (c # cs) sub then 0
      else (let i = index cs sub in if i < 0 then -1 else i + 1))"

primrec index_byte :: "string \<Rightarrow> char \<Rightarrow> int" where
  "index_byte [] b = -1"
| "index_byte (c # cs) b =
     (if c = b then 0 else (let i = index_byte cs b in if i < 0 then -1 else i + 1))"

primrec last_index_byte :: "string \<Rightarrow> char \<Rightarrow> int" where
  "last_index_byte [] b = -1"
| "last_index_byte (c # cs) b =
     (let i = last_index_byte cs b in
      if 0 \<le> i then i + 1 else if c = b then 0 else -1)"

text \<open>
  The slice expression \<open>s[i:]\<close>. Go panics when \<open>i\<close> is negative or beyond the
  length of \<open>s\<close>; the panic is the value \<open>None\<close>.
\<close>

definition slice_from :: "string \<Rightarrow> int \<Rightarrow> string option" where
  "slice_from s i = (if 0 \<le> i \<and> i \<le> int (length s) then Some (drop (nat i) s) else None)"

text \<open>\<open>strings.TrimSuffix\<close>, \<open>strings.TrimPrefix\<close>, \<open>strings.Trim\<close>.\<close>

definition trim_suffix :: "string \<Rightarrow> string \<Rightarrow> string" where
  "trim_suffix s suf = (if has_suffix s suf then take (length s - length suf) s else s)"

definition trim_prefix :: "string \<Rightarrow> string \<Rightarrow> string" where
  "trim_prefix s pre = (if has_prefix s pre then drop (length pre) s else s)"

definition trim :: "string \<Rightarrow> string \<Rightarrow> string" where
  "trim s cutset =
     rev (dropWhile (\<lambda>c. c \<in> set cutset) (rev (dropWhile (\<lambda>c. c \<in> set cutset) s)))"

text \<open>\<open>strings.ReplaceAll\<close> of one byte by another.\<close>

definition replace_all :: "string \<Rightarrow> char \<Rightarrow> char \<Rightarrow> string" where
  "replace_all s old new = map (\<lambda>c. if c = old then new else c) s"

text \<open>
  \<open>strings.Fields\<close>: the maximal runs of characters that are not white space. The
  first argument of \<open>str_fields_from\<close> is the run read so far. White space is the
  six ASCII bytes of \<open>is_space\<close>; Go also splits at \<open>U+0085\<close>, \<open>U+00A0\<close>
  and the other spaces of Unicode.
\<close>

primrec str_fields_from :: "string \<Rightarrow> string \<Rightarrow> string list" where
  "str_fields_from w [] = (if w = [] then [] else [w])"
| "str_fields_from w (c # cs) =
     (if is_space c then (if w = [] then str_fields_from [] cs else w # str_fields_from [] cs)
      else str_fields_from (w @ [c]) cs)"

definition str_fields :: "string \<Rightarrow> string list" where
  "str_fields s = str_fields_from [] s"

text \<open>\<open>strings.Join\<close>.\<close>

fun join :: "string list \<Rightarrow> string \<Rightarrow> string" where
  "join [] sep = []"
| "join [x] sep = x"
| "join (x # y # ys) sep = x @ sep @ join (y # ys) sep"

text \<open>
  \<open>filepath.Base\<close> with the separator \<open>/\<close>: the last element of the path, after
  trailing separators are removed; \<open>.\<close> for the empty path and \<open>/\<close> for a path of
  separators only.
\<close>

definition base :: "string \<Rightarrow> string" where
  "base p =
     (if p = [] then ''.''
      else (let q = rev (dropWhile (\<lambda>c. c = CHR ''/'') (rev p));
                e = rev (takeWhile (\<lambda>c. c \<noteq> CHR ''/'') (rev q))
            in if e = [] then ''/'' else e))"

text \<open>
  \<open>bufio.Scanner\<close> with the default split function \<open>ScanLines\<close> and the default
  buffer: the input is cut at every newline, an empty piece after the last newline is no
  line, one trailing carriage return is dropped from each line, and scanning stops for
  good at the first line that does not fit the buffer of \<open>64 * 1024\<close> bytes together
  with its newline.
\<close>

primrec split_lines :: "string \<Rightarrow> string \<Rightarrow> string list" where
  "split_lines cur [] = (if cur = [] then [] else [cur])"
| "split_lines cur (c # cs) =
     (if c = CHR 0x0A then cur # split_lines [] cs else split_lines (cur @ [c]) cs)"

definition drop_cr :: "string \<Rightarrow> string" where
  "drop_cr l = (if l \<noteq> [] \<and> last l = CHR 0x0D then butlast l else l)"

definition scan_lines :: "string \<Rightarrow> string list" where
  "scan_lines data =
     map drop_cr (takeWhile (\<lambda>l. int (length l) < 64 * 1024) (split_lines [] data))"

section \<open>Regular expressions of the program\<close>

text \<open>
  \<open>tokenRE = (<[^>]+>|[A-Za-z0-9_]+)\<close> with \<open>FindAllString(spec, -1)\<close>: the
  successive leftmost matches. At a \<open><\<close> the first alternative matches up to the next
  \<open>>\<close> when at least one character stands between them; at a letter, digit or
  underscore the second alternative takes the longest run of such characters; at any
  other position there is no match and the search moves on by one byte.
\<close>

definition is_word :: "char \<Rightarrow> bool" where
  "is_word c = (is_upper c \<or> is_lower c \<or> is_digit c \<or> c = CHR ''_'')"

function tokenRE_find_all :: "string \<Rightarrow> string list" where
  "tokenRE_find_all [] = []"
| "tokenRE_find_all (c # cs) =
     (if c = CHR ''<'' \<and> takeWhile (\<lambda>d. d \<noteq> CHR ''>'') cs \<noteq> [] \<and> CHR ''>'' \<in> set cs
      then (c # takeWhile (\<lambda>d. d \<noteq> CHR ''>'') cs @ ''>'')
             # tokenRE_find_all (tl (dropWhile (\<lambda>d. d \<noteq> CHR ''>'') cs))
      else if is_word c
      then (c # takeWhile is_word cs) # tokenRE_find_all (dropWhile is_word cs)
      else tokenRE_find_all cs)"
  by pat_completeness auto
termination
proof (relation "measure length")
  show "wf (measure length)" by simp
next
  fix c :: char and cs :: string
  have "length (dropWhile (\<lambda>d. d \<noteq> CHR ''>'') cs) \<le> length cs"
    by (rule length_dropWhile_le)
  then have "length (tl (dropWhile (\<lambda>d. d \<noteq> CHR ''>'') cs)) \<le> length cs"
    by simp
  then show "(tl (dropWhile (\<lambda>d. d \<noteq> CHR ''>'') cs), c # cs) \<in> measure length"
    by simp
next
  fix c :: char and cs :: string
  have "length (dropWhile is_word cs) \<le> length cs"
    by (rule length_dropWhile_le)
  then show "(dropWhile is_word cs, c # cs) \<in> measure length"
    by simp
next
  fix c :: char and cs :: string
  show "(cs, c # cs) \<in> measure length"
    by simp
qed

text \<open>
  \<open>quoteRE = '([^']*)'\<close> with \<open>FindAllStringSubmatch(val, -1)\<close>: the list of the
  first submatches \<open>m[1]\<close>, the texts between successive pairs of single quotes.
\<close>

function quoteRE_find_all :: "string \<Rightarrow> string list" where
  "quoteRE_find_all [] = []"
| "quoteRE_find_all (c # cs) =
     (if c = CHR 0x27 \<and> CHR 0x27 \<in> set cs
      then takeWhile (\<lambda>d. d \<noteq> CHR 0x27) cs
             # quoteRE_find_all (tl (dropWhile (\<lambda>d. d \<noteq> CHR 0x27) cs))
      else quoteRE_find_all cs)"
  by pat_completeness auto
termination
proof (relation "measure length")
  show "wf (measure length)" by simp
next
  fix c :: char and cs :: string
  have "length (dropWhile (\<lambda>d. d \<noteq> CHR 0x27) cs) \<le> length cs"
    by (rule length_dropWhile_le)
  then have "length (tl (dropWhile (\<lambda>d. d \<noteq> CHR 0x27) cs)) \<le> length cs"
    by simp
  then show "(tl (dropWhile (\<lambda>d. d \<noteq> CHR 0x27) cs), c # cs) \<in> measure length"
    by simp
next
  fix c :: char and cs :: string
  show "(cs, c # cs) \<in> measure length"
    by simp
qed

section \<open>Keyboard layout and modifier labels\<close>

text \<open>\<open>type kb int\<close> with its three constants.\<close>

type_synonym kb = int

definition kbApple :: kb where "kbApple = 0"
definition kbPC :: kb where "kbPC = 1"
definition kbChrome :: kb where "kbChrome = 2"

text \<open>
  \<open>layout\<close> reads the environment variable \<open>KEY_LAYOUT\<close> (the empty string when
  it is not set) and otherwise runs the interactive selection. The result of the
  selection \<open>sel.Run()\<close> is an argument: \<open>Some i\<close> is the index chosen, \<open>None\<close>
  is an error, on which the program exits with status 130.
\<close>

datatype exit = Exit int

definition layout :: "string \<Rightarrow> int option \<Rightarrow> exit + kb" where
  "layout key_layout run =
     (let v = to_lower key_layout in
      if v = ''apple'' \<or> v = ''mac'' then Inr kbApple
      else if v = ''pc'' \<or> v = ''windows'' then Inr kbPC
      else if v = ''chrome'' \<or> v = ''chromebook'' then Inr kbChrome
      else (case run of None \<Rightarrow> Inl (Exit 130) | Some i \<Rightarrow> Inr i))"

text \<open>
  \<open>letter_case v w\<close>: the string \<open>v\<close> is the string \<open>w\<close> with some of its
  letters in upper case.
\<close>

definition letter_case :: "string \<Rightarrow> string \<Rightarrow> bool" where
  "letter_case v w = list_all2 (\<lambda>c d. c = d \<or> c = to_upper_rune d) v w"

text \<open>
  \<open>is_ascii s\<close>: every byte of \<open>s\<close> is below \<open>0x80\<close>. On such strings
  \<open>to_lower\<close> is exactly \<open>strings.ToLower\<close>.
\<close>

definition is_ascii :: "string \<Rightarrow> bool" where
  "is_ascii s = list_all (\<lambda>c. c \<le> CHR 0x7F) s"

text \<open>
  \<open>modLabels\<close>: the map from modifier token to printed label. A Go map read at a key
  it does not hold gives the empty string (\<open>lbl_get\<close>).
\<close>

definition modLabels :: "kb \<Rightarrow> (string \<rightharpoonup> string)" where
  "modLabels k =
     (let m = [''<Primary>'' \<mapsto> ''Ctrl'', ''<Control>'' \<mapsto> ''Ctrl'', ''<Ctrl>'' \<mapsto> ''Ctrl'',
               ''<Shift>'' \<mapsto> ''Shift'']
      in if k = kbApple then m(''<Alt>'' \<mapsto> ''Option'', ''<Super>'' \<mapsto> ''Command'')
         else if k = kbChrome then m(''<Alt>'' \<mapsto> ''Alt'', ''<Super>'' \<mapsto> ''Search'')
         else m(''<Alt>'' \<mapsto> ''Alt'', ''<Super>'' \<mapsto> ''Win''))"

definition lbl_get :: "(string \<rightharpoonup> string) \<Rightarrow> string \<Rightarrow> string" where
  "lbl_get lbl t = (case lbl t of None \<Rightarrow> [] | Some v \<Rightarrow> v)"

section \<open>Helpers and accelerator formatting\<close>

text \<open>
  \<open>titleCase\<close> lowers the string and raises its first rune. With the ASCII letter
  case of this theory a first byte of \<open>0x80\<close> and above is kept, where Go raises a
  letter of another script.
\<close>

definition titleCase :: "string \<Rightarrow> string" where
  "titleCase s =
     (if s = [] then s
      else (case to_lower s of [] \<Rightarrow> [] | r0 # r \<Rightarrow> to_upper_rune r0 # r))"

definition humanise :: "string \<Rightarrow> string" where
  "humanise s =
     join (map titleCase (str_fields (replace_all (replace_all s (CHR ''_'') (CHR '' ''))
                                              (CHR ''-'') (CHR '' ''))))
          '' ''"

text \<open>
  \<open>fmtAccel\<close> returns the canonical accelerator and the success flag, as the Go
  function does.
\<close>

definition fmt_token :: "(string \<rightharpoonup> string) \<Rightarrow> string \<Rightarrow> string" where
  "fmt_token lbl t =
     (if lbl_get lbl t \<noteq> [] then lbl_get lbl t
      else if has_prefix t ''<'' \<and> has_suffix t ''>'' then humanise (trim t ''<>'')
      else humanise t)"

definition fmtAccel :: "string \<Rightarrow> (string \<rightharpoonup> string) \<Rightarrow> string \<times> bool" where
  "fmtAccel spec lbl =
     (if contains spec ''XF86'' then ([], False)
      else (let out = map (fmt_token lbl) (tokenRE_find_all spec)
            in if length out = 0 then ([], False) else (join out '' + '', True)))"

section \<open>Static shortcuts\<close>

record staticBind =
  spec :: string
  action :: string

definition coreShortcuts :: "staticBind list" where
  "coreShortcuts =
     [\<lparr>spec = ''<Super>'', action = ''Show Activities / Search''\<rparr>,
      \<lparr>spec = ''<Super>+Left'', action = ''Tile Window Left''\<rparr>,
      \<lparr>spec = ''<Super>+Right'', action = ''Tile Window Right''\<rparr>,
      \<lparr>spec = ''<Super>+Up'', action = ''Maximise Window''\<rparr>,
      \<lparr>spec = ''<Super>+Down'', action = ''Restore / Minimise Window''\<rparr>]"

section \<open>Schema classification\<close>

text \<open>
  \<open>classify\<close> returns the application label and the rank of the schema family. The
  two slice expressions of the fall-through case can panic in Go, so the result is an
  option and \<open>None\<close> is the panic.
\<close>

definition classify :: "string \<Rightarrow> string \<Rightarrow> (string \<times> int) option" where
  "classify schema key =
     (if contains schema ''.desktop.wm.keybindings''
         \<or> contains schema ''.mutter.wayland.keybindings''
         \<or> contains schema ''.mutter.keybindings''
      then Some (''Window Manager'', 0)
      else if contains schema ''.shell.keybindings'' then Some (''GNOME Shell'', 1)
      else if contains schema ''.settings-daemon.plugins.media-keys''
      then Some (''Media Keys'', 1)
      else if contains schema ''.custom-keybinding'' then Some (''Custom'', 3)
      else (let trim1 = trim_suffix schema ''.keybindings'';
                trim2 = trim_prefix trim1 ''org.'';
                idx = index_byte trim2 (CHR ''.'')
            in case (if 0 \<le> idx then slice_from trim2 (idx + 1) else Some trim2) of
                 None \<Rightarrow> None
               | Some trim3 \<Rightarrow>
                   (case slice_from trim3 (last_index_byte trim3 (CHR ''.'') + 1) of
                      None \<Rightarrow> None
                    | Some seg \<Rightarrow> Some (humanise seg, 2))))"

text \<open>The four conditions of the switch in \<open>classify\<close>, by name.\<close>

definition family_wm :: "string \<Rightarrow> bool" where
  "family_wm schema =
     (contains schema ''.desktop.wm.keybindings''
      \<or> contains schema ''.mutter.wayland.keybindings''
      \<or> contains schema ''.mutter.keybindings'')"

definition family_shell :: "string \<Rightarrow> bool" where
  "family_shell schema = contains schema ''.shell.keybindings''"

definition family_media :: "string \<Rightarrow> bool" where
  "family_media schema = contains schema ''.settings-daemon.plugins.media-keys''"

definition family_custom :: "string \<Rightarrow> bool" where
  "family_custom schema = contains schema ''.custom-keybinding''"

section \<open>Collecting the bindings\<close>

record row =
  accel :: string
  app :: string
  action :: string
  rank :: int
  order :: int

record custom =
  bind :: string
  name :: string
  cmd :: string

text \<open>
  A Go map whose entries are later ranged over is an association list with distinct
  keys, in the order of first insertion; \<open>m[k] = v\<close> is \<open>AList.update k v m\<close> and a
  lookup is \<open>map_of m k\<close>. The order in which \<open>range\<close> visits a map is not specified
  by Go: it is an argument of \<open>collect\<close>, a function that rearranges the entries, and
  \<open>range_order\<close> says that it visits every entry once.
\<close>

type_synonym chosen_map = "(string \<times> row) list"
type_synonym custom_map = "(string \<times> custom) list"

definition range_order :: "('a list \<Rightarrow> 'a list) \<Rightarrow> bool" where
  "range_order visit = (\<forall>xs. mset (visit xs) = mset xs)"










text \<open>
  \<open>orderIdx\<close> is the closure of \<open>collect\<close> that looks a key up in the table of its
  schema. Its argument \<open>keyOrder\<close> is the table for each schema: in the program it is
  \<open>loadKeyOrder\<close>, and the cache \<open>keyOrderCache\<close> makes it one table per schema for
  the whole run.
\<close>

definition orderIdx :: "(string \<Rightarrow> string \<rightharpoonup> int) \<Rightarrow> string \<Rightarrow> string \<Rightarrow> int" where
  "orderIdx keyOrder schema key =
     (case keyOrder schema key of Some v \<Rightarrow> v | None \<Rightarrow> 2 ^ 20)"

text \<open>
  The body of the inner loop once \<open>fmtAccel\<close> has succeeded: the new row is stored
  when the accelerator has no row yet, or when its rank is smaller, or when the rank is
  the same and its order is smaller.
\<close>

definition retain :: "chosen_map \<Rightarrow> row \<Rightarrow> chosen_map" where
  "retain chosen r =
     (case map_of chosen (accel r) of
        None \<Rightarrow> AList.update (accel r) r chosen
      | Some rOld \<Rightarrow>
          if rank r < rank rOld \<or> (rank r = rank rOld \<and> order r < order rOld)
          then AList.update (accel r) r chosen
          else chosen)"

definition spec_step ::
  "(string \<rightharpoonup> string) \<Rightarrow> string \<Rightarrow> string \<Rightarrow> int \<Rightarrow> int \<Rightarrow> chosen_map \<Rightarrow> string \<Rightarrow> chosen_map"
where
  "spec_step lbl a key rk ord chosen m1 =
     (case fmtAccel m1 lbl of
        (acc, ok) \<Rightarrow>
          if \<not> ok then chosen
          else retain chosen
                 \<lparr>accel = acc, app = a, action = humanise key, rank = rk, order = ord\<rparr>)"

text \<open>The three-way switch on the key of a custom-keybinding line.\<close>

definition set_field :: "custom \<Rightarrow> string \<Rightarrow> string \<Rightarrow> custom" where
  "set_field c key val =
     (if key = ''binding'' then c\<lparr>bind := trim val [CHR 0x27]\<rparr>
      else if key = ''name'' then c\<lparr>name := trim val [CHR 0x27]\<rparr>
      else if key = ''command'' then c\<lparr>cmd := trim val [CHR 0x27]\<rparr>
      else c)"

text \<open>One turn of the scanner loop. \<open>None\<close> is a panic.\<close>

definition scan_line ::
  "(string \<rightharpoonup> string) \<Rightarrow> (string \<Rightarrow> string \<rightharpoonup> int) \<Rightarrow> chosen_map \<times> custom_map \<Rightarrow> string
     \<Rightarrow> (chosen_map \<times> custom_map) option"
where
  "scan_line lbl keyOrder st line =
     (case str_fields line of
        schema # key # v # vs \<Rightarrow>
          (let val = join (v # vs) '' '' in
           if contains schema ''.custom-keybinding''
           then (case slice_from schema (index schema '':'' + 1) of
                   None \<Rightarrow> None
                 | Some p \<Rightarrow>
                     (let c = (case map_of (snd st) p of
                                 None \<Rightarrow> \<lparr>bind = [], name = [], cmd = []\<rparr>
                               | Some c0 \<Rightarrow> c0)
                      in Some (fst st, AList.update p (set_field c key val) (snd st))))
           else if \<not> contains schema ''keybinding'' then Some st
           else (case classify schema key of
                   None \<Rightarrow> None
                 | Some (a, rk) \<Rightarrow>
                     Some (foldl (spec_step lbl a key rk (orderIdx keyOrder schema key))
                                 (fst st) (quoteRE_find_all val),
                           snd st)))
      | _ \<Rightarrow> Some st)"

fun scan_all ::
  "(string \<rightharpoonup> string) \<Rightarrow> (string \<Rightarrow> string \<rightharpoonup> int) \<Rightarrow> chosen_map \<times> custom_map \<Rightarrow> string list
     \<Rightarrow> (chosen_map \<times> custom_map) option"
where
  "scan_all lbl keyOrder st [] = Some st"
| "scan_all lbl keyOrder st (line # rest) =
     (case scan_line lbl keyOrder st line of
        None \<Rightarrow> None
      | Some st' \<Rightarrow> scan_all lbl keyOrder st' rest)"

text \<open>The row of a custom binding, and the body of the loop over \<open>customMap\<close>.\<close>

definition custom_row :: "string \<Rightarrow> custom \<Rightarrow> row" where
  "custom_row acc c =
     (let app0 = humanise (base (cmd c));
          app1 = (if app0 = [] then ''Custom'' else app0);
          act0 = humanise (name c);
          act1 = (if act0 = [] then cmd c else act0)
      in \<lparr>accel = acc, app = app1, action = act1, rank = 3, order = 0\<rparr>)"

definition custom_step :: "(string \<rightharpoonup> string) \<Rightarrow> chosen_map \<Rightarrow> string \<times> custom \<Rightarrow> chosen_map" where
  "custom_step lbl chosen pc =
     (case fmtAccel (bind (snd pc)) lbl of
        (acc, ok) \<Rightarrow>
          if ok
          then (if map_of chosen acc \<noteq> None then chosen
                else AList.update acc (custom_row acc (snd pc)) chosen)
          else chosen)"

text \<open>The body of the loop over \<open>coreShortcuts\<close>, with the index of the entry.\<close>

definition static_step ::
  "(string \<rightharpoonup> string) \<Rightarrow> chosen_map \<Rightarrow> nat \<times> staticBind \<Rightarrow> chosen_map"
where
  "static_step lbl chosen ib =
     (case fmtAccel (spec (snd ib)) lbl of
        (acc, ok) \<Rightarrow>
          if ok
          then AList.update acc
                 \<lparr>accel = acc, app = ''Window Manager'', action = staticBind.action (snd ib),
                  rank = -1, order = int (fst ib)\<rparr> chosen
          else chosen)"

text \<open>
  \<open>collect\<close>. Besides the label table it takes what the Go function reads from its
  environment: the key-order tables, the order in which the two \<open>range\<close> loops over
  maps visit their entries, and the output of \<open>gsettingsDump\<close>.
\<close>

definition collect ::
  "(string \<rightharpoonup> string) \<Rightarrow> (string \<Rightarrow> string \<rightharpoonup> int)
     \<Rightarrow> ((string \<times> custom) list \<Rightarrow> (string \<times> custom) list) \<Rightarrow> (row list \<Rightarrow> row list)
     \<Rightarrow> string \<Rightarrow> row list option"
where
  "collect lbl keyOrder visit_custom visit_chosen dump =
     (case scan_all lbl keyOrder ([], []) (scan_lines dump) of
        None \<Rightarrow> None
      | Some (chosen, customMap) \<Rightarrow>
          Some (visit_chosen (map snd
                  (foldl (static_step lbl)
                         (foldl (custom_step lbl) chosen (visit_custom customMap))
                         (enumerate 0 coreShortcuts)))))"

section \<open>The earlier version of the program\<close>

text \<open>
  The repository holds the program twice. \<open>layout\<close>, \<open>modLabels\<close>, \<open>humanise\<close>,
  the title-casing helper and \<open>fmtAccel\<close> are the same in both files, and so are the
  static table and the handling of custom-keybinding lines. The definitions above follow
  the later file, whose \<open>collect\<close> keeps one row per canonical accelerator. The file
  \<open>gnome_shortcuts.go\<close> differs in \<open>classify\<close> and \<open>collect\<close>, which are
  \<open>classify_v1\<close> and \<open>collect_v1\<close> here: the ranks are 1 to 4 with 0 for the static
  rows, the map \<open>unique\<close> is keyed by the source of a row and not by its accelerator,
  and no row ever replaces another of a different source. Its struct \<open>row\<close> has the
  fields of the later one, the last being called \<open>prio\<close>; the record \<open>row\<close> serves
  for both.
\<close>

text \<open>\<open>strings.Split\<close> at one byte: the pieces between the separators, at least one.\<close>

primrec split_from :: "string \<Rightarrow> string \<Rightarrow> char \<Rightarrow> string list" where
  "split_from cur [] sep = [cur]"
| "split_from cur (c # cs) sep =
     (if c = sep then cur # split_from [] cs sep else split_from (cur @ [c]) cs sep)"

definition split_at :: "string \<Rightarrow> char \<Rightarrow> string list" where
  "split_at s sep = split_from [] s sep"

text \<open>The index expression \<open>xs[i]\<close>, which panics out of range.\<close>

definition at_index :: "'a list \<Rightarrow> int \<Rightarrow> 'a option" where
  "at_index xs i = (if 0 \<le> i \<and> i < int (length xs) then Some (xs ! nat i) else None)"

definition classify_v1 :: "string \<Rightarrow> (string \<times> int) option" where
  "classify_v1 schema =
     (if contains schema ''.desktop.wm.keybindings''
         \<or> contains schema ''.mutter.wayland.keybindings''
         \<or> contains schema ''.mutter.keybindings''
      then Some (''Window Manager'', 1)
      else if contains schema ''.shell.keybindings'' then Some (''GNOME Shell'', 2)
      else if contains schema ''.settings-daemon.plugins.media-keys''
      then Some (''Media Keys'', 2)
      else if contains schema ''.custom-keybinding'' then Some (''Custom'', 4)
      else (let trim1 = trim_suffix schema ''.keybindings'';
                trim2 = trim_prefix trim1 ''org.''
            in case slice_from trim2 (index trim2 ''.'' + 1) of
                 None \<Rightarrow> None
               | Some trim3 \<Rightarrow>
                   (let segs = split_at trim3 (CHR ''.'') in
                    case at_index segs (int (length segs) - 1) of
                      None \<Rightarrow> None
                    | Some seg \<Rightarrow> Some (humanise seg, 3))))"

definition spec_step_v1 ::
  "(string \<rightharpoonup> string) \<Rightarrow> string \<Rightarrow> string \<Rightarrow> chosen_map option \<Rightarrow> string
     \<Rightarrow> chosen_map option"
where
  "spec_step_v1 lbl schema key st m1 =
     (case st of
        None \<Rightarrow> None
      | Some unique \<Rightarrow>
          (case fmtAccel m1 lbl of
             (acc, ok) \<Rightarrow>
               if \<not> ok then Some unique
               else (case classify_v1 schema of
                       None \<Rightarrow> None
                     | Some (a, rk) \<Rightarrow>
                         Some (AList.update (schema @ '':'' @ key @ '':'' @ m1)
                                 \<lparr>accel = acc, app = a, action = humanise key, rank = rk,
                                  order = 1000\<rparr> unique))))"

definition scan_line_v1 ::
  "(string \<rightharpoonup> string) \<Rightarrow> chosen_map \<times> custom_map \<Rightarrow> string
     \<Rightarrow> (chosen_map \<times> custom_map) option"
where
  "scan_line_v1 lbl st line =
     (case str_fields line of
        schema # key # v # vs \<Rightarrow>
          (let val = join (v # vs) '' '' in
           if contains schema ''.custom-keybinding''
           then (case slice_from schema (index schema '':'' + 1) of
                   None \<Rightarrow> None
                 | Some pathKey \<Rightarrow>
                     (let c = (case map_of (snd st) pathKey of
                                 None \<Rightarrow> \<lparr>bind = [], name = [], cmd = []\<rparr>
                               | Some c0 \<Rightarrow> c0)
                      in Some (fst st, AList.update pathKey (set_field c key val) (snd st))))
           else if \<not> contains schema ''keybinding'' then Some st
           else (case foldl (spec_step_v1 lbl schema key) (Some (fst st))
                        (quoteRE_find_all val) of
                   None \<Rightarrow> None
                 | Some unique \<Rightarrow> Some (unique, snd st)))
      | _ \<Rightarrow> Some st)"

fun scan_all_v1 ::
  "(string \<rightharpoonup> string) \<Rightarrow> chosen_map \<times> custom_map \<Rightarrow> string list
     \<Rightarrow> (chosen_map \<times> custom_map) option"
where
  "scan_all_v1 lbl st [] = Some st"
| "scan_all_v1 lbl st (line # rest) =
     (case scan_line_v1 lbl st line of
        None \<Rightarrow> None
      | Some st' \<Rightarrow> scan_all_v1 lbl st' rest)"

definition custom_step_v1 :: "(string \<rightharpoonup> string) \<Rightarrow> chosen_map \<Rightarrow> string \<times> custom \<Rightarrow> chosen_map" where
  "custom_step_v1 lbl unique pc =
     (case fmtAccel (bind (snd pc)) lbl of
        (acc, ok) \<Rightarrow>
          if ok
          then (let app0 = humanise (base (cmd (snd pc)));
                    app1 = (if app0 = [] then ''Custom'' else app0);
                    act0 = humanise (name (snd pc));
                    act1 = (if act0 = [] then cmd (snd pc) else act0)
                in AList.update (''custom:'' @ bind (snd pc))
                     \<lparr>accel = acc, app = app1, action = act1, rank = 4, order = 1000\<rparr>
                     unique)
          else unique)"

definition static_step_v1 ::
  "(string \<rightharpoonup> string) \<Rightarrow> chosen_map \<Rightarrow> nat \<times> staticBind \<Rightarrow> chosen_map"
where
  "static_step_v1 lbl unique ib =
     (case fmtAccel (spec (snd ib)) lbl of
        (acc, ok) \<Rightarrow>
          if ok
          then AList.update (''static:'' @ spec (snd ib))
                 \<lparr>accel = acc, app = ''Window Manager'', action = staticBind.action (snd ib),
                  rank = 0, order = int (fst ib)\<rparr> unique
          else unique)"

definition collect_v1 ::
  "(string \<rightharpoonup> string) \<Rightarrow> ((string \<times> custom) list \<Rightarrow> (string \<times> custom) list)
     \<Rightarrow> (row list \<Rightarrow> row list) \<Rightarrow> string \<Rightarrow> row list option"
where
  "collect_v1 lbl visit_custom visit_unique dump =
     (case scan_all_v1 lbl ([], []) (scan_lines dump) of
        None \<Rightarrow> None
      | Some (unique, customMap) \<Rightarrow>
          Some (visit_unique (map snd
                  (foldl (static_step_v1 lbl)
                         (foldl (custom_step_v1 lbl) unique (visit_custom customMap))
                         (enumerate 0 coreShortcuts)))))"

section \<open>The scanner loop, taken apart\<close>

text \<open>
  The notions below name parts of \<open>collect\<close> so that statements can speak of them.
  \<open>line_candidates\<close> are the rows that the inner loop of \<open>collect\<close> hands to the
  comparison for one line of the dump, in order; \<open>candidates\<close> are those of all
  lines; \<open>custom_line\<close> is what one line does to \<open>customMap\<close> and \<open>customs\<close> is
  the map after the last line; \<open>resolved\<close> is the map \<open>chosen\<close> after the three
  loops. Lemmas \<open>scan_all_eq\<close> and \<open>collect_eq\<close> prove that \<open>collect\<close> computes
  exactly these. \<open>wf_chosen\<close> is the invariant of \<open>chosen\<close>: its keys are distinct
  and each row is stored under its own accelerator.
\<close>

definition wf_chosen :: "chosen_map \<Rightarrow> bool" where
  "wf_chosen ch = (distinct (map fst ch) \<and> (\<forall>a r. map_of ch a = Some r \<longrightarrow> accel r = a))"

definition spec_rows ::
  "(string \<rightharpoonup> string) \<Rightarrow> string \<Rightarrow> string \<Rightarrow> int \<Rightarrow> int \<Rightarrow> string list \<Rightarrow> row list"
where
  "spec_rows lbl a key rk ord specs =
     map (\<lambda>m1. \<lparr>accel = fst (fmtAccel m1 lbl), app = a, action = humanise key,
                rank = rk, order = ord\<rparr>)
         (filter (\<lambda>m1. snd (fmtAccel m1 lbl)) specs)"

definition line_candidates ::
  "(string \<rightharpoonup> string) \<Rightarrow> (string \<Rightarrow> string \<rightharpoonup> int) \<Rightarrow> string \<Rightarrow> row list"
where
  "line_candidates lbl keyOrder line =
     (case str_fields line of
        schema # key # v # vs \<Rightarrow>
          if contains schema ''.custom-keybinding'' \<or> \<not> contains schema ''keybinding'' then []
          else (case classify schema key of
                  None \<Rightarrow> []
                | Some (a, rk) \<Rightarrow>
                    spec_rows lbl a key rk (orderIdx keyOrder schema key)
                      (quoteRE_find_all (join (v # vs) '' '')))
      | _ \<Rightarrow> [])"

definition candidates ::
  "(string \<rightharpoonup> string) \<Rightarrow> (string \<Rightarrow> string \<rightharpoonup> int) \<Rightarrow> string list \<Rightarrow> row list"
where
  "candidates lbl keyOrder lines = concat (map (line_candidates lbl keyOrder) lines)"

definition custom_line :: "custom_map \<Rightarrow> string \<Rightarrow> custom_map" where
  "custom_line customMap line =
     (case str_fields line of
        schema # key # v # vs \<Rightarrow>
          if contains schema ''.custom-keybinding''
          then (let p = drop (nat (index schema '':'' + 1)) schema;
                    c = (case map_of customMap p of
                           None \<Rightarrow> \<lparr>bind = [], name = [], cmd = []\<rparr>
                         | Some c0 \<Rightarrow> c0)
                in AList.update p (set_field c key (join (v # vs) '' '')) customMap)
          else customMap
      | _ \<Rightarrow> customMap)"

definition customs :: "string list \<Rightarrow> custom_map" where
  "customs lines = foldl custom_line [] lines"

definition resolved ::
  "(string \<rightharpoonup> string) \<Rightarrow> (string \<Rightarrow> string \<rightharpoonup> int)
     \<Rightarrow> ((string \<times> custom) list \<Rightarrow> (string \<times> custom) list) \<Rightarrow> string list \<Rightarrow> chosen_map"
where
  "resolved lbl keyOrder visit_custom lines =
     foldl (static_step lbl)
       (foldl (custom_step lbl) (foldl retain [] (candidates lbl keyOrder lines))
          (visit_custom (customs lines)))
       (enumerate 0 coreShortcuts)"

text \<open>
  \<open>winner cs\<close> is the first row of the list \<open>cs\<close> whose pair of rank and order is
  least in the lexicographic order of pairs: the candidate that conflict resolution is
  meant to keep.
\<close>

definition winner :: "row list \<Rightarrow> row option" where
  "winner cs = find (\<lambda>c. \<forall>d\<in>set cs. (rank c, order c) \<le> (rank d, order d)) cs"

text \<open>
  The canonical accelerators of the static shortcuts under a label table (those whose
  spec normalizes), the label that a layout gives to \<open><Super>\<close>, the row that the
  last loop of \<open>collect\<close> stores for a static shortcut, and the five rows of the
  static table written out for a given label of \<open><Super>\<close>.
\<close>

definition static_accels_of :: "(string \<rightharpoonup> string) \<Rightarrow> staticBind list \<Rightarrow> string list" where
  "static_accels_of lbl ss =
     map (\<lambda>s. fst (fmtAccel (spec s) lbl)) (filter (\<lambda>s. snd (fmtAccel (spec s) lbl)) ss)"

definition static_accels :: "(string \<rightharpoonup> string) \<Rightarrow> string list" where
  "static_accels lbl = static_accels_of lbl coreShortcuts"

definition super_label :: "kb \<Rightarrow> string" where
  "super_label k = lbl_get (modLabels k) ''<Super>''"

definition static_row :: "string \<Rightarrow> nat \<Rightarrow> staticBind \<Rightarrow> row" where
  "static_row acc i s =
     \<lparr>accel = acc, app = ''Window Manager'', action = staticBind.action s, rank = -1,
      order = int i\<rparr>"

definition core_rows :: "string \<Rightarrow> row list" where
  "core_rows super =
     [\<lparr>accel = super, app = ''Window Manager'', action = ''Show Activities / Search'',
       rank = -1, order = 0\<rparr>,
      \<lparr>accel = super @ '' + Left'', app = ''Window Manager'', action = ''Tile Window Left'',
       rank = -1, order = 1\<rparr>,
      \<lparr>accel = super @ '' + Right'', app = ''Window Manager'', action = ''Tile Window Right'',
       rank = -1, order = 2\<rparr>,
      \<lparr>accel = super @ '' + Up'', app = ''Window Manager'', action = ''Maximise Window'',
       rank = -1, order = 3\<rparr>,
      \<lparr>accel = super @ '' + Down'', app = ''Window Manager'',
       action = ''Restore / Minimise Window'', rank = -1, order = 4\<rparr>]"

text \<open>
  The specs that \<open>collect\<close> hands to \<open>fmtAccel\<close>: \<open>line_specs\<close> are those quoted
  in a line that reaches the inner loop, \<open>schema_specs\<close> those of all lines, and
  \<open>origin_specs\<close> adds the binding specs of the custom entries and the static specs.
  \<open>custom_line_for p key line\<close> says that \<open>line\<close> is a custom-keybinding line
  with the key \<open>key\<close> for the entry of path \<open>p\<close>.
\<close>

definition line_specs :: "string \<Rightarrow> string list" where
  "line_specs line =
     (case str_fields line of
        schema # key # v # vs \<Rightarrow>
          if contains schema ''.custom-keybinding'' \<or> \<not> contains schema ''keybinding'' then []
          else quoteRE_find_all (join (v # vs) '' '')
      | _ \<Rightarrow> [])"

definition schema_specs :: "string list \<Rightarrow> string list" where
  "schema_specs lines = concat (map line_specs lines)"

definition origin_specs :: "string list \<Rightarrow> string set" where
  "origin_specs lines =
     set (schema_specs lines) \<union> (\<lambda>pc. bind (snd pc)) ` set (customs lines)
       \<union> spec ` set coreShortcuts"

definition custom_line_for :: "string \<Rightarrow> string \<Rightarrow> string \<Rightarrow> bool" where
  "custom_line_for p key line =
     (case str_fields line of
        schema # k # v # vs \<Rightarrow>
          contains schema ''.custom-keybinding''
          \<and> drop (nat (index schema '':'' + 1)) schema = p \<and> k = key
      | _ \<Rightarrow> False)"

section \<open>Example dumps\<close>

text \<open>
  Small dumps on which the theorems are tried: two schemas of different rank on one
  accelerator (with a multimedia key beside it); three keys of one rank on one
  accelerator, with a table of key orders; a schema and a custom binding on the
  accelerators of two static shortcuts; two custom entries, one on a free accelerator
  and without a name, one on an accelerator that a schema has.
\<close>

definition nl :: string where "nl = [CHR 0x0A]"

definition custom_schema :: string where
  "custom_schema = ''org.gnome.settings-daemon.plugins.media-keys.custom-keybinding:''"

definition custom0 :: string where
  "custom0 = ''/org/gnome/settings-daemon/plugins/media-keys/custom-keybindings/custom0/''"

definition custom1 :: string where
  "custom1 = ''/org/gnome/settings-daemon/plugins/media-keys/custom-keybindings/custom1/''"

definition dump_rank :: string where
  "dump_rank =
     ''org.some.app.keybindings do-thing ['<Super>space']'' @ nl @
     ''org.gnome.desktop.wm.keybindings switch-input-source ['<Super>space', 'XF86Keyboard']'' @ nl"







definition dump_conflict :: string where
  "dump_conflict =
     ''org.gnome.desktop.wm.keybindings move-to-side-w ['<Super>Left']'' @ nl @
     custom_schema @ custom0 @ '' binding '<Super>Up'' @ [CHR 0x27] @ nl @
     custom_schema @ custom0 @ '' command 'xterm'' @ [CHR 0x27] @ nl"

definition dump_custom :: string where
  "dump_custom =
     custom_schema @ custom0 @ '' binding '<Super>t'' @ [CHR 0x27] @ nl @
     custom_schema @ custom0 @ '' command '/usr/bin/gnome-terminal'' @ [CHR 0x27] @ nl @
     ''org.gnome.desktop.wm.keybindings close ['<Alt>F4']'' @ nl @
     custom_schema @ custom1 @ '' binding '<Alt>F4'' @ [CHR 0x27] @ nl @
     custom_schema @ custom1 @ '' name 'my thing'' @ [CHR 0x27] @ nl @
     custom_schema @ custom1 @ '' command 'foo'' @ [CHR 0x27] @ nl"

section \<open>Slices stay in range\<close>

lemma index_byte_bounds: "- 1 \<le> index_byte s b \<and> index_byte s b < int (length s)"
  by (induction s) (auto simp: Let_def)

lemma last_index_byte_bounds:
  "- 1 \<le> last_index_byte s b \<and> last_index_byte s b < int (length s)"
  by (induction s) (auto simp: Let_def)

lemma index_bounds: "sub \<noteq> [] \<Longrightarrow> - 1 \<le> index s sub \<and> index s sub < int (length s)"
  by (induction s) (auto simp: Let_def)

lemma slice_after_index_byte:
  "0 \<le> index_byte s b \<Longrightarrow> slice_from s (index_byte s b + 1) = Some (drop (nat (index_byte s b + 1)) s)"
  using index_byte_bounds [of s b] by (simp add: slice_from_def)

lemma slice_after_last_index_byte:
  "slice_from s (last_index_byte s b + 1) = Some (drop (nat (last_index_byte s b + 1)) s)"
  using last_index_byte_bounds [of s b] by (simp add: slice_from_def)

lemma slice_after_index:
  "sub \<noteq> [] \<Longrightarrow> slice_from s (index s sub + 1) = Some (drop (nat (index s sub + 1)) s)"
  using index_bounds [of sub s] by (simp add: slice_from_def)

section \<open>The normalizer rejects by its flag\<close>

text \<open>
  C5. \<open>fmtAccel\<close> returns the empty string with the flag \<open>False\<close> exactly when the
  spec contains \<open>XF86\<close> or the tokenizer finds no token in it, and its flag is
  \<open>True\<close> in every other case; the empty spec is rejected. The function is total: the
  rejection is a value, not a failure.
\<close>

theorem fmtAccel_rejects_iff:
  "(fmtAccel raw lbl = ([], False)) = (contains raw ''XF86'' \<or> tokenRE_find_all raw = [])
   \<and> snd (fmtAccel raw lbl) = (\<not> contains raw ''XF86'' \<and> tokenRE_find_all raw \<noteq> [])
   \<and> fmtAccel [] lbl = ([], False)"
  by (simp add: fmtAccel_def Let_def)

theorem fmtAccel_rejects_iff_witness:
  "fmtAccel ''XF86AudioPlay'' Map.empty = ([], False)
   \<and> fmtAccel ''+ +'' Map.empty = ([], False)
   \<and> snd (fmtAccel ''<Super>a'' Map.empty)"
proof -
  have a: "contains ''XF86AudioPlay'' ''XF86''" by code_simp
  have b: "tokenRE_find_all ''+ +'' = []" by code_simp
  have c: "\<not> contains ''<Super>a'' ''XF86''" "tokenRE_find_all ''<Super>a'' \<noteq> []"
    by code_simp+
  show ?thesis
    using a b c fmtAccel_rejects_iff [of "''XF86AudioPlay''" Map.empty]
      fmtAccel_rejects_iff [of "''+ +''" Map.empty]
      fmtAccel_rejects_iff [of "''<Super>a''" Map.empty]
    by simp
qed

section \<open>The classifier is total\<close>

lemma classify_Some: "\<exists>a rk. classify schema key = Some (a, rk) \<and> rk \<in> {0, 1, 2}
    \<or> classify schema key = Some (''Custom'', 3) \<and> contains schema ''.custom-keybinding''"
  by (simp add: classify_def Let_def slice_after_index_byte slice_after_last_index_byte)

lemma split_nonempty: "split_from cur s sep \<noteq> []"
  by (induction s arbitrary: cur) simp_all

lemma at_index_last: "segs \<noteq> [] \<Longrightarrow> at_index segs (int (length segs) - 1) = Some (last segs)"
  by (simp add: at_index_def last_conv_nth nat_diff_distrib')

lemma slice_after_dot:
  "slice_from s (index s ''.'' + 1) = Some (drop (nat (index s ''.'' + 1)) s)"
  by (rule slice_after_index) simp

text \<open>
  C8. \<open>classify\<close> returns a label and a rank for every schema and key: neither slice
  expression leaves its string. The rank is 0 for the window-manager family, 1 for the
  shell and media-keys families, 3 for the custom family and 2 for every other schema,
  the families being tried in this order; so the ranks of four schemas, one of each
  kind, increase strictly from window manager to shell or media keys to application to
  custom. The \<open>classify\<close> of the earlier file is total as well, its slice and its
  index being in range, with the ranks 1, 2, 4 and 3 for the same families.
\<close>

theorem classify_total_ranked:
  "(\<exists>a rk. classify schema key = Some (a, rk)
       \<and> (rk = 0 \<or> rk = 1 \<or> rk = 2 \<or> rk = 3)
       \<and> (rk = 0) = family_wm schema
       \<and> (rk = 1) = (\<not> family_wm schema \<and> (family_shell schema \<or> family_media schema))
       \<and> (rk = 3) = (\<not> family_wm schema \<and> \<not> family_shell schema \<and> \<not> family_media schema
                      \<and> family_custom schema)
       \<and> (rk = 2) = (\<not> family_wm schema \<and> \<not> family_shell schema \<and> \<not> family_media schema
                      \<and> \<not> family_custom schema))
   \<and> (family_wm s1 \<and> \<not> family_wm s2 \<and> (family_shell s2 \<or> family_media s2)
        \<and> \<not> family_wm s3 \<and> \<not> family_shell s3 \<and> \<not> family_media s3 \<and> \<not> family_custom s3
        \<and> \<not> family_wm s4 \<and> \<not> family_shell s4 \<and> \<not> family_media s4 \<and> family_custom s4
      \<longrightarrow> snd (the (classify s1 k1)) < snd (the (classify s2 k2))
          \<and> snd (the (classify s2 k2)) < snd (the (classify s3 k3))
          \<and> snd (the (classify s3 k3)) < snd (the (classify s4 k4)))
   \<and> (\<exists>a rk. classify_v1 schema = Some (a, rk)
       \<and> (rk = 1 \<or> rk = 2 \<or> rk = 3 \<or> rk = 4)
       \<and> (rk = 1) = family_wm schema
       \<and> (rk = 2) = (\<not> family_wm schema \<and> (family_shell schema \<or> family_media schema))
       \<and> (rk = 4) = (\<not> family_wm schema \<and> \<not> family_shell schema \<and> \<not> family_media schema
                      \<and> family_custom schema)
       \<and> (rk = 3) = (\<not> family_wm schema \<and> \<not> family_shell schema \<and> \<not> family_media schema
                      \<and> \<not> family_custom schema))"
proof -
  have 1: "\<exists>a rk. classify schema key = Some (a, rk)
       \<and> (rk = 0 \<or> rk = 1 \<or> rk = 2 \<or> rk = 3)
       \<and> (rk = 0) = family_wm schema
       \<and> (rk = 1) = (\<not> family_wm schema \<and> (family_shell schema \<or> family_media schema))
       \<and> (rk = 3) = (\<not> family_wm schema \<and> \<not> family_shell schema \<and> \<not> family_media schema
                      \<and> family_custom schema)
       \<and> (rk = 2) = (\<not> family_wm schema \<and> \<not> family_shell schema \<and> \<not> family_media schema
                      \<and> \<not> family_custom schema)"
    by (simp add: classify_def Let_def slice_after_index_byte slice_after_last_index_byte
        family_wm_def family_shell_def family_media_def family_custom_def)
  have 2: "family_wm s1 \<and> \<not> family_wm s2 \<and> (family_shell s2 \<or> family_media s2)
        \<and> \<not> family_wm s3 \<and> \<not> family_shell s3 \<and> \<not> family_media s3 \<and> \<not> family_custom s3
        \<and> \<not> family_wm s4 \<and> \<not> family_shell s4 \<and> \<not> family_media s4 \<and> family_custom s4
      \<longrightarrow> snd (the (classify s1 k1)) < snd (the (classify s2 k2))
          \<and> snd (the (classify s2 k2)) < snd (the (classify s3 k3))
          \<and> snd (the (classify s3 k3)) < snd (the (classify s4 k4))"
    by (simp add: classify_def Let_def slice_after_index_byte slice_after_last_index_byte
        family_wm_def family_shell_def family_media_def family_custom_def)
  have 3: "\<exists>a rk. classify_v1 schema = Some (a, rk)
       \<and> (rk = 1 \<or> rk = 2 \<or> rk = 3 \<or> rk = 4)
       \<and> (rk = 1) = family_wm schema
       \<and> (rk = 2) = (\<not> family_wm schema \<and> (family_shell schema \<or> family_media schema))
       \<and> (rk = 4) = (\<not> family_wm schema \<and> \<not> family_shell schema \<and> \<not> family_media schema
                      \<and> family_custom schema)
       \<and> (rk = 3) = (\<not> family_wm schema \<and> \<not> family_shell schema \<and> \<not> family_media schema
                      \<and> \<not> family_custom schema)"
    by (simp add: classify_v1_def Let_def slice_after_dot at_index_last split_at_def split_nonempty
        family_wm_def family_shell_def family_media_def family_custom_def)
  from 1 2 3 show ?thesis by (intro conjI)
qed

theorem classify_total_ranked_witness:
  "classify ''org.gnome.desktop.wm.keybindings'' ''close'' = Some (''Window Manager'', 0)
   \<and> classify ''org.gnome.shell.keybindings'' ''toggle-overview'' = Some (''GNOME Shell'', 1)
   \<and> classify ''org.gnome.Terminal.Legacy.Keybindings'' ''copy'' = Some (''Keybindings'', 2)
   \<and> classify ''x.custom-keybinding:/a/'' ''name'' = Some (''Custom'', 3)
   \<and> classify [] [] = Some ([], 2)
   \<and> classify_v1 ''org.gnome.Terminal.Legacy.Keybindings'' = Some (''Keybindings'', 3)
   \<and> snd (the (classify ''org.gnome.desktop.wm.keybindings'' ''close''))
       < snd (the (classify ''org.gnome.shell.keybindings'' ''toggle-overview''))
   \<and> snd (the (classify ''org.gnome.shell.keybindings'' ''toggle-overview''))
       < snd (the (classify ''org.gnome.Terminal.Legacy.Keybindings'' ''copy''))
   \<and> snd (the (classify ''org.gnome.Terminal.Legacy.Keybindings'' ''copy''))
       < snd (the (classify ''x.custom-keybinding:/a/'' ''name''))"
proof -
  have fam: "family_wm ''org.gnome.desktop.wm.keybindings''"
    "\<not> family_wm ''org.gnome.shell.keybindings''"
    "family_shell ''org.gnome.shell.keybindings''"
    "\<not> family_wm ''org.gnome.Terminal.Legacy.Keybindings''"
    "\<not> family_shell ''org.gnome.Terminal.Legacy.Keybindings''"
    "\<not> family_media ''org.gnome.Terminal.Legacy.Keybindings''"
    "\<not> family_custom ''org.gnome.Terminal.Legacy.Keybindings''"
    "\<not> family_wm ''x.custom-keybinding:/a/''"
    "\<not> family_shell ''x.custom-keybinding:/a/''"
    "\<not> family_media ''x.custom-keybinding:/a/''"
    "family_custom ''x.custom-keybinding:/a/''"
    by code_simp+
  have vals: "classify ''org.gnome.desktop.wm.keybindings'' ''close'' = Some (''Window Manager'', 0)"
    "classify ''org.gnome.shell.keybindings'' ''toggle-overview'' = Some (''GNOME Shell'', 1)"
    "classify ''org.gnome.Terminal.Legacy.Keybindings'' ''copy'' = Some (''Keybindings'', 2)"
    "classify ''x.custom-keybinding:/a/'' ''name'' = Some (''Custom'', 3)"
    "classify [] [] = Some ([], 2)"
    "classify_v1 ''org.gnome.Terminal.Legacy.Keybindings'' = Some (''Keybindings'', 3)"
    by code_simp+
  from fam have "snd (the (classify ''org.gnome.desktop.wm.keybindings'' ''close''))
       < snd (the (classify ''org.gnome.shell.keybindings'' ''toggle-overview''))
   \<and> snd (the (classify ''org.gnome.shell.keybindings'' ''toggle-overview''))
       < snd (the (classify ''org.gnome.Terminal.Legacy.Keybindings'' ''copy''))
   \<and> snd (the (classify ''org.gnome.Terminal.Legacy.Keybindings'' ''copy''))
       < snd (the (classify ''x.custom-keybinding:/a/'' ''name''))"
    using classify_total_ranked [of "''org.gnome.desktop.wm.keybindings''" "''close''"
        "''org.gnome.desktop.wm.keybindings''" "''org.gnome.shell.keybindings''"
        "''org.gnome.Terminal.Legacy.Keybindings''" "''x.custom-keybinding:/a/''"
        "''close''" "''toggle-overview''" "''copy''" "''name''"]
    by blast
  with vals show ?thesis by blast
qed

section \<open>Layout selection\<close>

lemma is_upper_int: "is_upper c \<longleftrightarrow> 65 \<le> (of_char c :: int) \<and> (of_char c :: int) \<le> 90"
proof -
  have "(of_char c :: int) = int (of_char c)" by (simp add: of_nat_of_char)
  then show ?thesis by (simp add: is_upper_def less_eq_char_def)
qed

lemma is_lower_int: "is_lower c \<longleftrightarrow> 97 \<le> (of_char c :: int) \<and> (of_char c :: int) \<le> 122"
proof -
  have "(of_char c :: int) = int (of_char c)" by (simp add: of_nat_of_char)
  then show ?thesis by (simp add: is_lower_def less_eq_char_def)
qed

lemma upper_of_lower:
  assumes "is_lower d"
  shows "is_upper (to_upper_rune d) \<and> to_lower_rune (to_upper_rune d) = d"
proof -
  let ?n = "of_char d :: int"
  from assms have n: "97 \<le> ?n" "?n \<le> 122" by (simp_all add: is_lower_int)
  have u: "to_upper_rune d = char_of (?n - 32)" using assms by (simp add: to_upper_rune_def)
  have "(?n - 32) mod 256 = ?n - 32" using n by simp
  then have o: "(of_char (to_upper_rune d) :: int) = ?n - 32" by (simp add: u)
  have up: "is_upper (to_upper_rune d)" unfolding is_upper_int o using n by linarith
  have "to_lower_rune (to_upper_rune d) = char_of ((?n - 32) + 32)"
    using up o by (simp add: to_lower_rune_def)
  also have "\<dots> = char_of ?n" by simp
  finally show ?thesis using up by simp
qed

lemma lower_of_upper:
  assumes "is_upper c"
  shows "is_lower (to_lower_rune c) \<and> to_upper_rune (to_lower_rune c) = c"
proof -
  let ?n = "of_char c :: int"
  from assms have n: "65 \<le> ?n" "?n \<le> 90" by (simp_all add: is_upper_int)
  have u: "to_lower_rune c = char_of (?n + 32)" using assms by (simp add: to_lower_rune_def)
  have "(?n + 32) mod 256 = ?n + 32" using n by simp
  then have o: "(of_char (to_lower_rune c) :: int) = ?n + 32" by (simp add: u)
  have lo: "is_lower (to_lower_rune c)" unfolding is_lower_int o using n by linarith
  have "to_upper_rune (to_lower_rune c) = char_of ((?n + 32) - 32)"
    using lo o by (simp add: to_upper_rune_def)
  then show ?thesis using lo by simp
qed

lemma to_lower_rune_variant:
  assumes "\<not> is_upper d" and "c = d \<or> c = to_upper_rune d"
  shows "to_lower_rune c = d"
proof (cases "is_lower d")
  case True
  then show ?thesis using assms upper_of_lower [of d] by (auto simp: to_lower_rune_def)
next
  case False
  then have "to_upper_rune d = d" by (simp add: to_upper_rune_def)
  then show ?thesis using assms by (auto simp: to_lower_rune_def)
qed

lemma variant_of_to_lower_rune: "c = to_lower_rune c \<or> c = to_upper_rune (to_lower_rune c)"
proof (cases "is_upper c")
  case True
  then show ?thesis using lower_of_upper [of c] by simp
next
  case False
  then show ?thesis by (simp add: to_lower_rune_def)
qed

lemma letter_case_iff:
  assumes "\<forall>d\<in>set w. \<not> is_upper d"
  shows "letter_case v w \<longleftrightarrow> to_lower v = w"
proof
  assume "letter_case v w"
  then have "list_all2 (\<lambda>c d. c = d \<or> c = to_upper_rune d) v w" by (simp add: letter_case_def)
  then show "to_lower v = w" using assms
  proof (induction rule: list_all2_induct)
    case Nil
    then show ?case by (simp add: to_lower_def)
  next
    case (Cons c cs d ds)
    then show ?case using to_lower_rune_variant [of d c] by (simp add: to_lower_def)
  qed
next
  assume "to_lower v = w"
  then have w: "w = map to_lower_rune v" by (simp add: to_lower_def)
  have "list_all2 (\<lambda>c d. c = d \<or> c = to_upper_rune d) v (map to_lower_rune v)"
    using variant_of_to_lower_rune by (induction v) auto
  then show "letter_case v w" by (simp add: letter_case_def w)
qed

lemma no_upper_names:
  "\<forall>d\<in>set ''apple''. \<not> is_upper d" "\<forall>d\<in>set ''mac''. \<not> is_upper d"
  "\<forall>d\<in>set ''pc''. \<not> is_upper d" "\<forall>d\<in>set ''windows''. \<not> is_upper d"
  "\<forall>d\<in>set ''chrome''. \<not> is_upper d" "\<forall>d\<in>set ''chromebook''. \<not> is_upper d"
  by (simp_all add: is_upper_def)

text \<open>
  C10. Whatever the letter case, \<open>apple\<close> and \<open>mac\<close> select the Apple layout,
  \<open>pc\<close> and \<open>windows\<close> the PC layout, \<open>chrome\<close> and \<open>chromebook\<close> the
  Chrome layout; an ASCII value that is none of the six in any letter case gives what
  the interactive selection gives, and is no error of its own.
\<close>

theorem layout_case_insensitive:
  "(letter_case v ''apple'' \<or> letter_case v ''mac'' \<longrightarrow> layout v run = Inr kbApple)
   \<and> (letter_case v ''pc'' \<or> letter_case v ''windows'' \<longrightarrow> layout v run = Inr kbPC)
   \<and> (letter_case v ''chrome'' \<or> letter_case v ''chromebook'' \<longrightarrow> layout v run = Inr kbChrome)
   \<and> (is_ascii v
        \<and> (\<forall>w\<in>set [''apple'', ''mac'', ''pc'', ''windows'', ''chrome'', ''chromebook''].
              \<not> letter_case v w)
        \<longrightarrow> layout v run = (case run of None \<Rightarrow> Inl (Exit 130) | Some i \<Rightarrow> Inr i))"
  by (simp add: letter_case_iff no_upper_names layout_def)

theorem layout_case_insensitive_witness:
  "layout ''MaC'' None = Inr kbApple \<and> layout ''Windows'' None = Inr kbPC
   \<and> layout ''CHROMEBOOK'' None = Inr kbChrome
   \<and> layout ''dvorak'' (Some 2) = Inr 2 \<and> layout ''dvorak'' None = Inl (Exit 130)"
proof -
  have a: "letter_case ''MaC'' ''mac''" "letter_case ''Windows'' ''windows''"
    "letter_case ''CHROMEBOOK'' ''chromebook''"
    by (simp_all add: letter_case_iff no_upper_names) code_simp+
  have b: "\<forall>w\<in>set [''apple'', ''mac'', ''pc'', ''windows'', ''chrome'', ''chromebook''].
          \<not> letter_case ''dvorak'' w"
    by code_simp
  have c: "is_ascii ''dvorak''" by code_simp
  show ?thesis
    using a b c layout_case_insensitive [of "''MaC''" None]
      layout_case_insensitive [of "''Windows''" None]
      layout_case_insensitive [of "''CHROMEBOOK''" None]
      layout_case_insensitive [of "''dvorak''" "Some 2"]
      layout_case_insensitive [of "''dvorak''" None]
    by simp
qed


section \<open>The loops as folds\<close>

lemma spec_step_retain:
  "spec_step lbl a key rk ord ch m1 =
     foldl retain ch (spec_rows lbl a key rk ord [m1])"
  by (simp add: spec_step_def spec_rows_def split: prod.split)

lemma spec_rows_Cons:
  "spec_rows lbl a key rk ord (m1 # ms) =
     spec_rows lbl a key rk ord [m1] @ spec_rows lbl a key rk ord ms"
  by (simp add: spec_rows_def)

lemma foldl_spec_step:
  "foldl (spec_step lbl a key rk ord) ch specs = foldl retain ch (spec_rows lbl a key rk ord specs)"
proof (induction specs arbitrary: ch)
  case Nil
  show ?case by (simp add: spec_rows_def)
next
  case (Cons m1 ms)
  have "foldl (spec_step lbl a key rk ord) ch (m1 # ms)
      = foldl (spec_step lbl a key rk ord) (spec_step lbl a key rk ord ch m1) ms"
    by simp
  also have "\<dots> = foldl retain (foldl retain ch (spec_rows lbl a key rk ord [m1]))
      (spec_rows lbl a key rk ord ms)"
    by (simp only: Cons.IH spec_step_retain)
  also have "\<dots> = foldl retain ch (spec_rows lbl a key rk ord (m1 # ms))"
    by (simp only: spec_rows_Cons [of lbl a key rk ord m1 ms] foldl_append)
  finally show ?case .
qed

lemma scan_line_eq:
  "scan_line lbl ko st line
     = Some (foldl retain (fst st) (line_candidates lbl ko line), custom_line (snd st) line)"
proof (cases "str_fields line")
  case Nil
  then show ?thesis by (simp add: scan_line_def line_candidates_def custom_line_def)
next
  case (Cons schema r1)
  show ?thesis
  proof (cases r1)
    case Nil
    with Cons show ?thesis by (simp add: scan_line_def line_candidates_def custom_line_def)
  next
    case c2: (Cons key r2)
    show ?thesis
    proof (cases r2)
      case Nil
      with Cons c2 show ?thesis by (simp add: scan_line_def line_candidates_def custom_line_def)
    next
      case c3: (Cons v vs)
      have f: "str_fields line = schema # key # v # vs" using Cons c2 c3 by simp
      obtain a rk where cl: "classify schema key = Some (a, rk)"
        using classify_Some [of schema key] by blast
      have sl: "slice_from schema (index schema '':'' + 1)
                  = Some (drop (nat (index schema '':'' + 1)) schema)"
        by (rule slice_after_index) simp
      show ?thesis
        by (simp add: scan_line_def line_candidates_def custom_line_def f cl sl Let_def
            foldl_spec_step)
    qed
  qed
qed

lemma scan_all_eq:
  "scan_all lbl ko st lines
     = Some (foldl retain (fst st) (candidates lbl ko lines), foldl custom_line (snd st) lines)"
proof (induction lines arbitrary: st)
  case Nil
  show ?case by (simp add: candidates_def)
next
  case (Cons line rest)
  show ?case by (simp add: scan_line_eq Cons.IH candidates_def)
qed

lemma collect_eq:
  "collect lbl ko vc vo dump = Some (vo (map snd (resolved lbl ko vc (scan_lines dump))))"
  by (simp add: collect_def scan_all_eq resolved_def customs_def)

section \<open>The chosen map stays well formed\<close>

lemma wf_chosen_Nil: "wf_chosen []"
  by (simp add: wf_chosen_def)

lemma wf_chosen_update: "wf_chosen ch \<Longrightarrow> accel r = a \<Longrightarrow> wf_chosen (AList.update a r ch)"
  by (simp add: wf_chosen_def distinct_update update_conv')

lemma wf_chosen_retain: "wf_chosen ch \<Longrightarrow> wf_chosen (retain ch r)"
  by (simp add: retain_def wf_chosen_update split: option.split)

lemma wf_chosen_foldl_retain: "wf_chosen ch \<Longrightarrow> wf_chosen (foldl retain ch rs)"
  by (induction rs arbitrary: ch) (simp_all add: wf_chosen_retain)

lemma wf_chosen_custom_step: "wf_chosen ch \<Longrightarrow> wf_chosen (custom_step lbl ch pc)"
  by (simp add: custom_step_def custom_row_def Let_def wf_chosen_update split: prod.split)

lemma wf_chosen_foldl_custom: "wf_chosen ch \<Longrightarrow> wf_chosen (foldl (custom_step lbl) ch cs)"
  by (induction cs arbitrary: ch) (simp_all add: wf_chosen_custom_step)

lemma wf_chosen_static_step: "wf_chosen ch \<Longrightarrow> wf_chosen (static_step lbl ch ib)"
  by (simp add: static_step_def wf_chosen_update split: prod.split)

lemma wf_chosen_foldl_static: "wf_chosen ch \<Longrightarrow> wf_chosen (foldl (static_step lbl) ch ss)"
  by (induction ss arbitrary: ch) (simp_all add: wf_chosen_static_step)

lemma wf_chosen_resolved: "wf_chosen (resolved lbl ko vc lines)"
  unfolding resolved_def
  by (intro wf_chosen_foldl_static wf_chosen_foldl_custom wf_chosen_foldl_retain wf_chosen_Nil)

lemma wf_chosen_accels: "wf_chosen ch \<Longrightarrow> map accel (map snd ch) = map fst ch"
  by (auto simp: wf_chosen_def)

lemma wf_chosen_row_iff:
  assumes "wf_chosen ch"
  shows "r \<in> set (map snd ch) \<longleftrightarrow> map_of ch (accel r) = Some r"
proof
  assume "r \<in> set (map snd ch)"
  then obtain k where k: "(k, r) \<in> set ch" by auto
  from assms have d: "distinct (map fst ch)" by (simp add: wf_chosen_def)
  from k d have m: "map_of ch k = Some r" by simp
  with assms have "accel r = k" by (simp add: wf_chosen_def)
  with m show "map_of ch (accel r) = Some r" by simp
next
  assume "map_of ch (accel r) = Some r"
  then have "(accel r, r) \<in> set ch" by (rule map_of_SomeD)
  then show "r \<in> set (map snd ch)" by force
qed

lemma range_order_set: "range_order visit \<Longrightarrow> set (visit xs) = set xs"
  by (metis range_order_def mset_eq_setD)

lemma range_order_distinct_map:
  assumes "range_order visit"
  shows "distinct (map f (visit xs)) = distinct (map f xs)"
proof -
  have "mset (map f (visit xs)) = mset (map f xs)"
    using assms by (simp add: range_order_def)
  then show ?thesis by (rule mset_eq_imp_distinct_iff)
qed

text \<open>
  C2. The rows that \<open>collect\<close> returns have pairwise different accelerators: the
  list of their \<open>accel\<close> fields has no repetition, whatever the dump and in whatever
  order the final loop visits the map.
\<close>

theorem collect_accels_distinct:
  assumes "range_order visit_chosen"
  shows "\<exists>rows. collect lbl keyOrder visit_custom visit_chosen dump = Some rows
           \<and> distinct (map accel rows)"
proof -
  let ?ch = "resolved lbl keyOrder visit_custom (scan_lines dump)"
  have "wf_chosen ?ch" by (rule wf_chosen_resolved)
  then have "distinct (map accel (map snd ?ch))"
    by (simp only: wf_chosen_accels) (simp add: wf_chosen_def)
  then have "distinct (map accel (visit_chosen (map snd ?ch)))"
    by (simp only: range_order_distinct_map [OF assms])
  then show ?thesis by (simp add: collect_eq)
qed

section \<open>Lookups after each step\<close>

lemma map_of_retain:
  "map_of (retain ch r) a =
     (if a = accel r
      then (case map_of ch a of
              None \<Rightarrow> Some r
            | Some rOld \<Rightarrow>
                if (rank r, order r) < (rank rOld, order rOld) then Some r else Some rOld)
      else map_of ch a)"
  by (auto simp: retain_def update_conv' split: option.split)

lemma map_of_custom_step:
  "map_of (custom_step lbl ch pc) a =
     (if snd (fmtAccel (bind (snd pc)) lbl) \<and> fst (fmtAccel (bind (snd pc)) lbl) = a
         \<and> map_of ch a = None
      then Some (custom_row a (snd pc))
      else map_of ch a)"
  by (auto simp: custom_step_def update_conv' split: prod.split)

lemma map_of_static_step:
  "map_of (static_step lbl ch ib) a =
     (if snd (fmtAccel (spec (snd ib)) lbl) \<and> fst (fmtAccel (spec (snd ib)) lbl) = a
      then Some \<lparr>accel = a, app = ''Window Manager'', action = staticBind.action (snd ib),
                 rank = -1, order = int (fst ib)\<rparr>
      else map_of ch a)"
  by (auto simp: static_step_def update_conv' split: prod.split)

lemma map_of_foldl_custom_keep:
  "map_of ch a = Some r \<Longrightarrow> map_of (foldl (custom_step lbl) ch cs) a = Some r"
  by (induction cs arbitrary: ch) (simp_all add: map_of_custom_step)

lemma static_accels_of_Cons:
  "set (static_accels_of lbl (s # ss)) =
     (if snd (fmtAccel (spec s) lbl) then {fst (fmtAccel (spec s) lbl)} else {})
       \<union> set (static_accels_of lbl ss)"
  by (simp add: static_accels_of_def)

lemma map_of_foldl_static_other:
  "a \<notin> set (static_accels_of lbl (map snd ibs))
     \<Longrightarrow> map_of (foldl (static_step lbl) ch ibs) a = map_of ch a"
proof (induction ibs arbitrary: ch)
  case Nil
  show ?case by simp
next
  case (Cons ib ibs)
  from Cons.prems
  have u: "a \<notin> (if snd (fmtAccel (spec (snd ib)) lbl) then {fst (fmtAccel (spec (snd ib)) lbl)} else {})
            \<union> set (static_accels_of lbl (map snd ibs))"
    unfolding list.map static_accels_of_Cons .
  then have 1: "a \<notin> set (static_accels_of lbl (map snd ibs))"
    by blast
  from u have 2: "\<not> (snd (fmtAccel (spec (snd ib)) lbl) \<and> fst (fmtAccel (spec (snd ib)) lbl) = a)"
    by (cases "snd (fmtAccel (spec (snd ib)) lbl)") auto
  have "map_of (foldl (static_step lbl) ch (ib # ibs)) a
      = map_of (static_step lbl ch ib) a"
    using Cons.IH [OF 1] by simp
  also have "\<dots> = map_of ch a" using 2 by (auto simp: map_of_static_step)
  finally show ?case .
qed

lemma map_of_statics_other:
  "a \<notin> set (static_accels lbl)
     \<Longrightarrow> map_of (foldl (static_step lbl) ch (enumerate 0 coreShortcuts)) a = map_of ch a"
  by (rule map_of_foldl_static_other) (simp add: static_accels_def)

section \<open>The retained row is the first minimal candidate\<close>

lemma find_append_case:
  "find P (xs @ ys) = (case find P xs of None \<Rightarrow> find P ys | Some x \<Rightarrow> Some x)"
  by (induction xs) simp_all

lemma winner_Some:
  assumes "winner cs = Some m"
  shows "m \<in> set cs \<and> (\<forall>d\<in>set cs. (rank m, order m) \<le> (rank d, order d))"
  using assms unfolding winner_def by (auto simp: find_Some_iff)

lemma winner_exists:
  assumes "cs \<noteq> []"
  shows "\<exists>m. winner cs = Some m"
proof -
  let ?K = "(\<lambda>c. (rank c, order c)) ` set cs"
  have fin: "finite ?K" and ne: "?K \<noteq> {}" using assms by simp_all
  from Min_in [OF fin ne] obtain c where c: "c \<in> set cs" "(rank c, order c) = Min ?K"
    by auto
  have "\<forall>d\<in>set cs. (rank c, order c) \<le> (rank d, order d)"
    using c(2) fin by simp
  with c(1) have "find (\<lambda>c. \<forall>d\<in>set cs. (rank c, order c) \<le> (rank d, order d)) cs \<noteq> None"
    by (auto simp: find_None_iff)
  then show ?thesis by (auto simp: winner_def)
qed

lemma winner_None: "winner cs = None \<longleftrightarrow> cs = []"
proof
  assume n: "winner cs = None"
  show "cs = []"
  proof (rule ccontr)
    assume "cs \<noteq> []"
    from winner_exists [OF this] n show False by simp
  qed
next
  assume "cs = []"
  then show "winner cs = None" by (simp add: winner_def)
qed

lemma winner_snoc:
  "winner (xs @ [r]) =
     (case winner xs of
        None \<Rightarrow> Some r
      | Some rOld \<Rightarrow> if (rank r, order r) < (rank rOld, order rOld) then Some r else Some rOld)"
proof (cases "winner xs")
  case None
  then have "xs = []" by (simp add: winner_None)
  then show ?thesis using None by (simp add: winner_def)
next
  case (Some rOld)
  let ?k = "\<lambda>c. (rank c, order c)"
  let ?P = "\<lambda>c. \<forall>d\<in>set (xs @ [r]). ?k c \<le> ?k d"
  let ?Q = "\<lambda>c. \<forall>d\<in>set xs. ?k c \<le> ?k d"
  from winner_Some [OF Some] have old: "rOld \<in> set xs" "\<forall>d\<in>set xs. ?k rOld \<le> ?k d"
    by simp_all
  show ?thesis
  proof (cases "?k r < ?k rOld")
    case True
    have "\<And>c. c \<in> set xs \<Longrightarrow> \<not> ?P c"
    proof
      fix c assume c: "c \<in> set xs" and "?P c"
      then have "?k c \<le> ?k r" by simp
      moreover from old(2) c have "?k rOld \<le> ?k c" by blast
      ultimately show False using True by (meson leD le_less_trans)
    qed
    then have n: "find ?P xs = None" by (auto simp: find_None_iff)
    have "?P r"
    proof
      fix d assume "d \<in> set (xs @ [r])"
      then consider "d \<in> set xs" | "d = r" by auto
      then show "?k r \<le> ?k d"
      proof cases
        case 1
        with old(2) have "?k rOld \<le> ?k d" by blast
        with True show ?thesis by (meson less_imp_le less_le_trans)
      next
        case 2
        then show ?thesis by simp
      qed
    qed
    then have "find ?P (xs @ [r]) = Some r"
      by (simp only: find_append_case n) simp
    then show ?thesis using Some True by (simp add: winner_def)
  next
    case False
    then have le: "?k rOld \<le> ?k r" by (rule leI)
    have "\<And>c. c \<in> set xs \<Longrightarrow> ?P c = ?Q c"
    proof -
      fix c assume c: "c \<in> set xs"
      show "?P c = ?Q c"
      proof
        assume "?P c" then show "?Q c" by simp
      next
        assume q: "?Q c"
        with old(1) have "?k c \<le> ?k rOld" by blast
        from this le have "?k c \<le> ?k r" by (rule order_trans)
        with q show "?P c" by simp
      qed
    qed
    then have "find ?P xs = find ?Q xs" by (rule find_cong [OF refl])
    also have "\<dots> = Some rOld" using Some by (simp add: winner_def)
    finally have fx: "find ?P xs = Some rOld" .
    have "find ?P (xs @ [r]) = Some rOld" by (simp only: find_append_case fx option.case)
    then have "winner (xs @ [r]) = Some rOld" by (simp only: winner_def)
    then show ?thesis by (simp only: Some option.case False if_False)
  qed
qed

lemma map_of_foldl_retain:
  "map_of (foldl retain [] rs) a = winner (filter (\<lambda>r. accel r = a) rs)"
proof (induction rs rule: rev_induct)
  case Nil
  show ?case by (simp add: winner_def)
next
  case (snoc r rs)
  show ?case
  proof (cases "accel r = a")
    case True
    then show ?thesis using snoc by (simp add: map_of_retain winner_snoc)
  next
    case False
    then have "a \<noteq> accel r" by blast
    then show ?thesis using snoc False by (simp add: map_of_retain)
  qed
qed

section \<open>Schema candidates against each other\<close>

lemma row_in_collect:
  assumes "range_order visit_chosen"
  shows "collect lbl ko vc visit_chosen dump
           = Some (visit_chosen (map snd (resolved lbl ko vc (scan_lines dump))))
         \<and> (r \<in> set (visit_chosen (map snd (resolved lbl ko vc (scan_lines dump))))
              \<longleftrightarrow> map_of (resolved lbl ko vc (scan_lines dump)) (accel r) = Some r)"
  by (simp only: collect_eq range_order_set [OF assms]
      wf_chosen_row_iff [OF wf_chosen_resolved])

lemma resolved_schema:
  assumes "a \<notin> set (static_accels lbl)"
    and "winner (filter (\<lambda>c. accel c = a) (candidates lbl ko lines)) = Some w"
  shows "map_of (resolved lbl ko vc lines) a = Some w"
proof -
  have "map_of (foldl retain [] (candidates lbl ko lines)) a = Some w"
    by (simp only: map_of_foldl_retain assms(2))
  then have "map_of (foldl (custom_step lbl) (foldl retain [] (candidates lbl ko lines))
                      (vc (customs lines))) a = Some w"
    by (rule map_of_foldl_custom_keep)
  then show ?thesis
    by (simp only: resolved_def map_of_statics_other [OF assms(1)])
qed

lemma key_le_rank: "(rank w, order w) \<le> (rank c, order c) \<Longrightarrow> rank w \<le> rank c"
  by auto

lemma retained_schema_row:
  assumes vo: "range_order visit_chosen"
    and st: "a \<notin> set (static_accels lbl)"
    and c: "c \<in> set (candidates lbl ko (scan_lines dump))" "accel c = a"
  shows "\<exists>rows w. collect lbl ko vc visit_chosen dump = Some rows
           \<and> winner (filter (\<lambda>c. accel c = a) (candidates lbl ko (scan_lines dump))) = Some w
           \<and> w \<in> set rows \<and> accel w = a
           \<and> (\<forall>r\<in>set rows. accel r = a \<longrightarrow> r = w)"
proof -
  let ?cs = "candidates lbl ko (scan_lines dump)"
  let ?fcs = "filter (\<lambda>c. accel c = a) ?cs"
  let ?rows = "visit_chosen (map snd (resolved lbl ko vc (scan_lines dump)))"
  from c have "?fcs \<noteq> []" by (auto simp: filter_empty_conv)
  then obtain w where w: "winner ?fcs = Some w" using winner_exists by blast
  from winner_Some [OF w] have wa: "accel w = a" by simp
  have m: "map_of (resolved lbl ko vc (scan_lines dump)) a = Some w"
    by (rule resolved_schema [OF st w])
  note ric = row_in_collect [OF vo, of lbl ko vc dump]
  have 1: "collect lbl ko vc visit_chosen dump = Some ?rows" using ric by simp
  have 2: "w \<in> set ?rows" using ric [of w] m wa by simp
  have 3: "\<forall>r\<in>set ?rows. accel r = a \<longrightarrow> r = w"
  proof (intro ballI impI)
    fix r assume "r \<in> set ?rows" and ra: "accel r = a"
    then have "map_of (resolved lbl ko vc (scan_lines dump)) (accel r) = Some r"
      using ric [of r] by simp
    with m ra show "r = w" by simp
  qed
  from 1 w 2 wa 3 show ?thesis by blast
qed

text \<open>
  C3. Take two rows that the scanner loop builds from lines of the dump that are not
  custom-keybinding lines, for the same canonical accelerator, the first of a strictly
  smaller rank than the second, and suppose no static shortcut has this accelerator.
  Then the second is not among the rows that \<open>collect\<close> returns; the row returned
  for the accelerator is a candidate of a rank not above the first one's; and when the
  two are the only candidates for the accelerator, the row returned is the first.
\<close>

theorem smaller_rank_wins:
  assumes "range_order visit_chosen"
    and "c1 \<in> set (candidates lbl keyOrder (scan_lines dump))"
    and "c2 \<in> set (candidates lbl keyOrder (scan_lines dump))"
    and "accel c1 = accel c2" and "rank c1 < rank c2"
    and "accel c1 \<notin> set (static_accels lbl)"
  shows "\<exists>rows. collect lbl keyOrder visit_custom visit_chosen dump = Some rows
           \<and> c2 \<notin> set rows
           \<and> (\<exists>r\<in>set rows. accel r = accel c1 \<and> rank r \<le> rank c1
                 \<and> r \<in> set (candidates lbl keyOrder (scan_lines dump)))
           \<and> ((\<forall>c\<in>set (candidates lbl keyOrder (scan_lines dump)).
                  accel c = accel c1 \<longrightarrow> c = c1 \<or> c = c2)
                \<longrightarrow> c1 \<in> set rows)"
proof -
  let ?cs = "candidates lbl keyOrder (scan_lines dump)"
  let ?fcs = "filter (\<lambda>c. accel c = accel c1) ?cs"
  from retained_schema_row [OF assms(1) assms(6) assms(2) refl, of visit_custom]
  obtain rows w where rows: "collect lbl keyOrder visit_custom visit_chosen dump = Some rows"
    and w: "winner ?fcs = Some w" and wr: "w \<in> set rows" and wa: "accel w = accel c1"
    and uniq: "\<forall>r\<in>set rows. accel r = accel c1 \<longrightarrow> r = w"
    by blast
  from winner_Some [OF w] have wc: "w \<in> set ?cs"
    and wmin: "\<forall>d\<in>set ?fcs. (rank w, order w) \<le> (rank d, order d)"
    by simp_all
  from assms(2) have "c1 \<in> set ?fcs" by simp
  with wmin have "(rank w, order w) \<le> (rank c1, order c1)" by blast
  then have le: "rank w \<le> rank c1" by (rule key_le_rank)
  have n2: "c2 \<notin> set rows"
  proof
    assume "c2 \<in> set rows"
    with uniq assms(4) have "c2 = w" by simp
    with le assms(5) show False by simp
  qed
  have only: "(\<forall>c\<in>set ?cs. accel c = accel c1 \<longrightarrow> c = c1 \<or> c = c2) \<longrightarrow> c1 \<in> set rows"
  proof
    assume "\<forall>c\<in>set ?cs. accel c = accel c1 \<longrightarrow> c = c1 \<or> c = c2"
    with wc wa have "w = c1 \<or> w = c2" by blast
    moreover have "w \<noteq> c2" using le assms(5) by auto
    ultimately show "c1 \<in> set rows" using wr by simp
  qed
  from rows n2 wr wa le wc only show ?thesis by blast
qed

lemma dump_rank_candidates:
  "candidates (modLabels kbPC) (\<lambda>_. Map.empty) (scan_lines dump_rank) =
     [\<lparr>accel = ''Win + Space'', app = ''App'', action = ''Do Thing'', rank = 2, order = 1048576\<rparr>,
      \<lparr>accel = ''Win + Space'', app = ''Window Manager'', action = ''Switch Input Source'',
       rank = 0, order = 1048576\<rparr>]"
  by code_simp

lemma static_accels_pc:
  "static_accels (modLabels kbPC) =
     [''Win'', ''Win + Left'', ''Win + Right'', ''Win + Up'', ''Win + Down'']"
  by code_simp

lemma range_order_id: "range_order (\<lambda>xs. xs)"
  by (simp add: range_order_def)

text \<open>
  In \<open>dump_rank\<close> an application schema (rank 2) binds \<open><Super>space\<close> before
  the window manager (rank 0) does: the row of the window manager is returned.
\<close>

theorem smaller_rank_wins_witness:
  "\<exists>rows. collect (modLabels kbPC) (\<lambda>_. Map.empty) (\<lambda>xs. xs) (\<lambda>xs. xs) dump_rank = Some rows
     \<and> \<lparr>accel = ''Win + Space'', app = ''App'', action = ''Do Thing'', rank = 2,
         order = 1048576\<rparr> \<notin> set rows
     \<and> \<lparr>accel = ''Win + Space'', app = ''Window Manager'', action = ''Switch Input Source'',
         rank = 0, order = 1048576\<rparr> \<in> set rows"
  using smaller_rank_wins [OF range_order_id,
      of "\<lparr>accel = ''Win + Space'', app = ''Window Manager'', action = ''Switch Input Source'',
         rank = 0, order = 1048576\<rparr>" "modLabels kbPC" "\<lambda>_. Map.empty" dump_rank
         "\<lparr>accel = ''Win + Space'', app = ''App'', action = ''Do Thing'', rank = 2,
         order = 1048576\<rparr>" "\<lambda>xs. xs"]
  unfolding dump_rank_candidates static_accels_pc by auto
















section \<open>Static shortcuts\<close>

lemma map_of_foldl_static_hit:
  assumes "distinct (static_accels_of lbl (map snd ibs))"
    and "(n, s) \<in> set ibs" and "fmtAccel (spec s) lbl = (acc, True)"
  shows "map_of (foldl (static_step lbl) ch ibs) acc = Some (static_row acc n s)"
  using assms
proof (induction ibs arbitrary: ch)
  case Nil
  then show ?case by simp
next
  case (Cons ib ibs)
  have d: "distinct (static_accels_of lbl (map snd ibs))"
    using Cons.prems(1) by (simp add: static_accels_of_def split: if_splits)
  show ?case
  proof (cases "ib = (n, s)")
    case True
    have "acc \<notin> set (static_accels_of lbl (map snd ibs))"
      using Cons.prems(1) Cons.prems(3) True by (simp add: static_accels_of_def)
    then have "map_of (foldl (static_step lbl) ch (ib # ibs)) acc
        = map_of (static_step lbl ch ib) acc"
      by (simp add: map_of_foldl_static_other)
    also have "\<dots> = Some (static_row acc n s)"
      using True Cons.prems(3) by (simp add: map_of_static_step static_row_def)
    finally show ?thesis .
  next
    case False
    with Cons.prems(2) have "(n, s) \<in> set ibs" by simp
    from Cons.IH [OF d this Cons.prems(3)] show ?thesis by simp
  qed
qed

lemma modLabels_other: "k \<noteq> kbApple \<Longrightarrow> k \<noteq> kbChrome \<Longrightarrow> modLabels k = modLabels kbPC"
  by (simp add: modLabels_def kbApple_def kbChrome_def kbPC_def)

lemma super_label_values:
  "super_label kbApple = ''Command''" "super_label kbPC = ''Win''"
  "super_label kbChrome = ''Search''"
  by code_simp+

lemma static_accels_apple:
  "static_accels (modLabels kbApple) =
     [''Command'', ''Command + Left'', ''Command + Right'', ''Command + Up'', ''Command + Down'']"
  by code_simp

lemma static_accels_chrome:
  "static_accels (modLabels kbChrome) =
     [''Search'', ''Search + Left'', ''Search + Right'', ''Search + Up'', ''Search + Down'']"
  by code_simp

lemma static_accels_distinct: "distinct (static_accels (modLabels k))"
proof -
  consider "k = kbApple" | "k = kbChrome" | "k \<noteq> kbApple" "k \<noteq> kbChrome" by blast
  then show ?thesis
  proof cases
    case 1 then show ?thesis by (simp add: static_accels_apple)
  next
    case 2 then show ?thesis by (simp add: static_accels_chrome)
  next
    case 3 then show ?thesis by (simp add: modLabels_other static_accels_pc)
  qed
qed

text \<open>
  C1. Under the label table of any layout, a static shortcut whose spec normalizes is
  in the rows that \<open>collect\<close> returns, with its own action, the application label
  \<open>Window Manager\<close>, rank -1 and its position in the table as order; and it is the only
  row returned for its canonical accelerator, whatever the dump holds.
\<close>

theorem static_shortcut_wins:
  assumes "range_order visit_chosen"
    and "i < length coreShortcuts"
    and "fmtAccel (spec (coreShortcuts ! i)) (modLabels k) = (acc, True)"
  shows "\<exists>rows. collect (modLabels k) keyOrder visit_custom visit_chosen dump = Some rows
           \<and> \<lparr>accel = acc, app = ''Window Manager'',
               action = staticBind.action (coreShortcuts ! i), rank = -1, order = int i\<rparr>
               \<in> set rows
           \<and> (\<forall>r\<in>set rows. accel r = acc
                 \<longrightarrow> r = \<lparr>accel = acc, app = ''Window Manager'',
                          action = staticBind.action (coreShortcuts ! i), rank = -1,
                          order = int i\<rparr>)"
proof -
  let ?lbl = "modLabels k"
  let ?res = "resolved ?lbl keyOrder visit_custom (scan_lines dump)"
  let ?rows = "visit_chosen (map snd ?res)"
  let ?row = "static_row acc i (coreShortcuts ! i)"
  have d: "distinct (static_accels_of ?lbl (map snd (enumerate 0 coreShortcuts)))"
    using static_accels_distinct [of k] by (simp add: static_accels_def)
  have m: "(i, coreShortcuts ! i) \<in> set (enumerate 0 coreShortcuts)"
    using assms(2) by (simp add: in_set_enumerate_eq)
  have hit: "map_of ?res acc = Some ?row"
    unfolding resolved_def by (rule map_of_foldl_static_hit [OF d m assms(3)])
  note ric = row_in_collect [OF assms(1), of ?lbl keyOrder visit_custom dump]
  have 1: "collect ?lbl keyOrder visit_custom visit_chosen dump = Some ?rows"
    using ric by simp
  have ra: "accel ?row = acc" by (simp add: static_row_def)
  have 2: "?row \<in> set ?rows" using ric [of ?row] hit ra by simp
  have 3: "\<forall>r\<in>set ?rows. accel r = acc \<longrightarrow> r = ?row"
  proof (intro ballI impI)
    fix r assume "r \<in> set ?rows" and "accel r = acc"
    then have "map_of ?res acc = Some r" using ric [of r] by simp
    with hit show "r = ?row" by simp
  qed
  from 1 2 3 show ?thesis unfolding static_row_def by blast
qed

lemma collect_dump_rank:
  "collect (modLabels kbPC) (\<lambda>_. Map.empty) (\<lambda>xs. xs) (\<lambda>xs. xs) dump_rank =
     Some [\<lparr>accel = ''Win + Space'', app = ''Window Manager'', action = ''Switch Input Source'',
             rank = 0, order = 1048576\<rparr>,
           \<lparr>accel = ''Win'', app = ''Window Manager'', action = ''Show Activities / Search'',
             rank = - 1, order = 0\<rparr>,
           \<lparr>accel = ''Win + Left'', app = ''Window Manager'', action = ''Tile Window Left'',
             rank = - 1, order = 1\<rparr>,
           \<lparr>accel = ''Win + Right'', app = ''Window Manager'', action = ''Tile Window Right'',
             rank = - 1, order = 2\<rparr>,
           \<lparr>accel = ''Win + Up'', app = ''Window Manager'', action = ''Maximise Window'',
             rank = - 1, order = 3\<rparr>,
           \<lparr>accel = ''Win + Down'', app = ''Window Manager'',
             action = ''Restore / Minimise Window'', rank = - 1, order = 4\<rparr>]"
  by code_simp

theorem collect_accels_distinct_witness:
  "distinct (map accel (the (collect (modLabels kbPC) (\<lambda>_. Map.empty) (\<lambda>xs. xs) (\<lambda>xs. xs)
      dump_rank)))
   \<and> map accel (the (collect (modLabels kbPC) (\<lambda>_. Map.empty) (\<lambda>xs. xs) (\<lambda>xs. xs) dump_rank))
       = [''Win + Space'', ''Win'', ''Win + Left'', ''Win + Right'', ''Win + Up'', ''Win + Down'']"
proof -
  from collect_accels_distinct [OF range_order_id, of "modLabels kbPC" "\<lambda>_. Map.empty"
      "\<lambda>xs. xs" dump_rank]
  have "distinct (map accel (the (collect (modLabels kbPC) (\<lambda>_. Map.empty) (\<lambda>xs. xs)
      (\<lambda>xs. xs) dump_rank)))"
    by auto
  then show ?thesis by (simp add: collect_dump_rank)
qed

lemma dump_conflict_facts:
  "candidates (modLabels kbPC) (\<lambda>_. Map.empty) (scan_lines dump_conflict) =
     [\<lparr>accel = ''Win + Left'', app = ''Window Manager'', action = ''Move To Side W'',
       rank = 0, order = 1048576\<rparr>]"
  "customs (scan_lines dump_conflict) = [(custom0, \<lparr>bind = ''<Super>Up'', name = [], cmd = ''xterm''\<rparr>)]"
  "fmtAccel (spec (coreShortcuts ! 1)) (modLabels kbPC) = (''Win + Left'', True)"
  "fmtAccel (spec (coreShortcuts ! 3)) (modLabels kbPC) = (''Win + Up'', True)"
  "fmtAccel ''<Super>Up'' (modLabels kbPC) = (''Win + Up'', True)"
  "staticBind.action (coreShortcuts ! 1) = ''Tile Window Left''"
  "staticBind.action (coreShortcuts ! 3) = ''Maximise Window''"
  by code_simp+

text \<open>
  In \<open>dump_conflict\<close> a schema binds \<open><Super>Left\<close> and a custom entry binds
  \<open><Super>Up\<close>: the rows returned for the two accelerators are the static ones.
\<close>

theorem static_shortcut_wins_witness:
  "\<lparr>accel = ''Win + Left'', app = ''Window Manager'', action = ''Tile Window Left'', rank = -1,
     order = 1\<rparr>
     \<in> set (the (collect (modLabels kbPC) (\<lambda>_. Map.empty) (\<lambda>xs. xs) (\<lambda>xs. xs) dump_conflict))
   \<and> \<lparr>accel = ''Win + Left'', app = ''Window Manager'', action = ''Move To Side W'',
       rank = 0, order = 1048576\<rparr>
     \<notin> set (the (collect (modLabels kbPC) (\<lambda>_. Map.empty) (\<lambda>xs. xs) (\<lambda>xs. xs) dump_conflict))
   \<and> \<lparr>accel = ''Win + Up'', app = ''Window Manager'', action = ''Maximise Window'', rank = -1,
       order = 3\<rparr>
     \<in> set (the (collect (modLabels kbPC) (\<lambda>_. Map.empty) (\<lambda>xs. xs) (\<lambda>xs. xs) dump_conflict))
   \<and> custom_row ''Win + Up'' \<lparr>bind = ''<Super>Up'', name = [], cmd = ''xterm''\<rparr>
     \<notin> set (the (collect (modLabels kbPC) (\<lambda>_. Map.empty) (\<lambda>xs. xs) (\<lambda>xs. xs) dump_conflict))"
proof -
  let ?c = "collect (modLabels kbPC) (\<lambda>_. Map.empty) (\<lambda>xs. xs) (\<lambda>xs. xs) dump_conflict"
  let ?left = "\<lparr>accel = ''Win + Left'', app = ''Window Manager'', action = ''Tile Window Left'',
                 rank = -1, order = 1\<rparr>"
  let ?up = "\<lparr>accel = ''Win + Up'', app = ''Window Manager'', action = ''Maximise Window'',
               rank = -1, order = 3\<rparr>"
  have l: "1 < length coreShortcuts" "3 < length coreShortcuts"
    by (simp_all add: coreShortcuts_def)
  from static_shortcut_wins [OF range_order_id l(1) dump_conflict_facts(3),
      of "\<lambda>_. Map.empty" "\<lambda>xs. xs" dump_conflict]
  obtain rows where rows: "?c = Some rows" and 1: "?left \<in> set rows"
    and 2: "\<forall>r\<in>set rows. accel r = ''Win + Left'' \<longrightarrow> r = ?left"
    unfolding dump_conflict_facts(6) by auto
  from static_shortcut_wins [OF range_order_id l(2) dump_conflict_facts(4),
      of "\<lambda>_. Map.empty" "\<lambda>xs. xs" dump_conflict]
  have 3: "?up \<in> set rows" and 4: "\<forall>r\<in>set rows. accel r = ''Win + Up'' \<longrightarrow> r = ?up"
    unfolding dump_conflict_facts(7) rows by auto
  have 5: "\<lparr>accel = ''Win + Left'', app = ''Window Manager'', action = ''Move To Side W'',
       rank = 0, order = 1048576\<rparr> \<notin> set rows"
    using 2 by fastforce
  have "rank (custom_row ''Win + Up'' \<lparr>bind = ''<Super>Up'', name = [], cmd = ''xterm''\<rparr>) = 3"
    "accel (custom_row ''Win + Up'' \<lparr>bind = ''<Super>Up'', name = [], cmd = ''xterm''\<rparr>)
       = ''Win + Up''"
    by (simp_all add: custom_row_def Let_def)
  then have 6: "custom_row ''Win + Up'' \<lparr>bind = ''<Super>Up'', name = [], cmd = ''xterm''\<rparr>
      \<notin> set rows"
    using 4 by fastforce
  from 1 3 5 6 show ?thesis by (simp only: rows option.sel simp_thms)
qed

section \<open>The empty dump\<close>

lemma range_order_Nil: "range_order visit \<Longrightarrow> visit [] = []"
  using range_order_set [of visit "[]"] by simp

lemma statics_only:
  "map snd (foldl (static_step (modLabels kbApple)) [] (enumerate 0 coreShortcuts))
     = core_rows ''Command''"
  "map snd (foldl (static_step (modLabels kbChrome)) [] (enumerate 0 coreShortcuts))
     = core_rows ''Search''"
  "map snd (foldl (static_step (modLabels kbPC)) [] (enumerate 0 coreShortcuts))
     = core_rows ''Win''"
  by code_simp+

lemma super_label_cases:
  "super_label k = (if k = kbApple then ''Command'' else if k = kbChrome then ''Search'' else ''Win'')"
proof -
  have ne: "kbChrome \<noteq> kbApple" by (simp add: kbApple_def kbChrome_def)
  consider "k = kbApple" | "k = kbChrome" | "k \<noteq> kbApple" "k \<noteq> kbChrome" by blast
  then show ?thesis
  proof cases
    case 1 then show ?thesis by (simp add: super_label_values)
  next
    case 2 then show ?thesis using ne by (simp add: super_label_values)
  next
    case 3
    have "super_label k = super_label kbPC"
      by (simp only: super_label_def modLabels_other [OF 3])
    then show ?thesis using 3 by (simp add: super_label_values)
  qed
qed

lemma statics_only_any:
  "map snd (foldl (static_step (modLabels k)) [] (enumerate 0 coreShortcuts))
     = core_rows (super_label k)"
proof -
  consider "k = kbApple" | "k = kbChrome" | "k \<noteq> kbApple" "k \<noteq> kbChrome" by blast
  then show ?thesis
  proof cases
    case 1 then show ?thesis by (simp only: statics_only super_label_values)
  next
    case 2 then show ?thesis by (simp only: statics_only super_label_values)
  next
    case 3
    have "super_label k = ''Win''" using 3 by (simp add: super_label_cases)
    then show ?thesis by (simp only: modLabels_other [OF 3] statics_only)
  qed
qed

lemma core_accels:
  "map (\<lambda>r. (accel r, True)) (core_rows ''Command'')
     = map (\<lambda>s. fmtAccel (spec s) (modLabels kbApple)) coreShortcuts"
  "map (\<lambda>r. (accel r, True)) (core_rows ''Search'')
     = map (\<lambda>s. fmtAccel (spec s) (modLabels kbChrome)) coreShortcuts"
  "map (\<lambda>r. (accel r, True)) (core_rows ''Win'')
     = map (\<lambda>s. fmtAccel (spec s) (modLabels kbPC)) coreShortcuts"
  by code_simp+

lemma core_accels_any:
  "map (\<lambda>r. (accel r, True)) (core_rows (super_label k))
     = map (\<lambda>s. fmtAccel (spec s) (modLabels k)) coreShortcuts"
proof -
  consider "k = kbApple" | "k = kbChrome" | "k \<noteq> kbApple" "k \<noteq> kbChrome" by blast
  then show ?thesis
  proof cases
    case 1 then show ?thesis by (simp only: core_accels super_label_values)
  next
    case 2 then show ?thesis by (simp only: core_accels super_label_values)
  next
    case 3
    have "super_label k = ''Win''" using 3 by (simp add: super_label_cases)
    then show ?thesis by (simp only: modLabels_other [OF 3] core_accels)
  qed
qed

text \<open>
  C7. On the empty dump \<open>collect\<close> returns the five static shortcuts and nothing
  else, each once: the accelerators are the label of \<open><Super>\<close> in the table of the
  layout, alone and joined by \<open> + \<close> to \<open>Left\<close>, \<open>Right\<close>, \<open>Up\<close> and \<open>Down\<close>;
  the application label is \<open>Window Manager\<close>, the action is the one of the table. The
  label of \<open><Super>\<close> is \<open>Command\<close> for the Apple layout, \<open>Search\<close> for the Chrome
  layout and \<open>Win\<close> for every other, and the five accelerators are what
  \<open>fmtAccel\<close> makes of the five specs under the table of the layout.
\<close>

theorem empty_dump_gives_statics:
  assumes "range_order visit_custom" and "range_order visit_chosen"
  shows "\<exists>rows. collect (modLabels k) keyOrder visit_custom visit_chosen [] = Some rows
           \<and> mset rows = mset (core_rows (super_label k))
           \<and> super_label k
               = (if k = kbApple then ''Command'' else if k = kbChrome then ''Search''
                  else ''Win'')
           \<and> map (\<lambda>r. (app r, action r)) (core_rows (super_label k))
               = map (\<lambda>s. (''Window Manager'', staticBind.action s)) coreShortcuts
           \<and> map (\<lambda>r. (accel r, True)) (core_rows (super_label k))
               = map (\<lambda>s. fmtAccel (spec s) (modLabels k)) coreShortcuts"
proof -
  have "resolved (modLabels k) keyOrder visit_custom (scan_lines [])
      = foldl (static_step (modLabels k)) [] (enumerate 0 coreShortcuts)"
    by (simp add: resolved_def scan_lines_def candidates_def customs_def
        range_order_Nil [OF assms(1)])
  then have "collect (modLabels k) keyOrder visit_custom visit_chosen []
      = Some (visit_chosen (core_rows (super_label k)))"
    by (simp only: collect_eq statics_only_any)
  moreover have "mset (visit_chosen (core_rows (super_label k))) = mset (core_rows (super_label k))"
    using assms(2) by (simp add: range_order_def)
  moreover have "map (\<lambda>r. (app r, action r)) (core_rows (super_label k))
               = map (\<lambda>s. (''Window Manager'', staticBind.action s)) coreShortcuts"
    by (simp add: core_rows_def coreShortcuts_def)
  moreover have "map (\<lambda>r. (accel r, True)) (core_rows (super_label k))
               = map (\<lambda>s. fmtAccel (spec s) (modLabels k)) coreShortcuts"
    by (rule core_accels_any)
  ultimately show ?thesis using super_label_cases [of k] by blast
qed

theorem empty_dump_gives_statics_witness:
  "mset (the (collect (modLabels kbApple) (\<lambda>_. Map.empty) (\<lambda>xs. xs) rev [])) =
     mset [\<lparr>accel = ''Command'', app = ''Window Manager'', action = ''Show Activities / Search'',
             rank = - 1, order = 0\<rparr>,
           \<lparr>accel = ''Command + Left'', app = ''Window Manager'', action = ''Tile Window Left'',
             rank = - 1, order = 1\<rparr>,
           \<lparr>accel = ''Command + Right'', app = ''Window Manager'', action = ''Tile Window Right'',
             rank = - 1, order = 2\<rparr>,
           \<lparr>accel = ''Command + Up'', app = ''Window Manager'', action = ''Maximise Window'',
             rank = - 1, order = 3\<rparr>,
           \<lparr>accel = ''Command + Down'', app = ''Window Manager'',
             action = ''Restore / Minimise Window'', rank = - 1, order = 4\<rparr>]
   \<and> fmtAccel ''<Super>+Left'' (modLabels kbPC) = (''Win + Left'', True)
   \<and> fmtAccel ''<Super>+Left'' (modLabels kbApple) = (''Command + Left'', True)"
proof -
  have r: "range_order (rev :: row list \<Rightarrow> row list)" by (simp add: range_order_def)
  have f: "fmtAccel ''<Super>+Left'' (modLabels kbPC) = (''Win + Left'', True)"
    "fmtAccel ''<Super>+Left'' (modLabels kbApple) = (''Command + Left'', True)"
    by code_simp+
  from empty_dump_gives_statics [OF range_order_id r, of kbApple "\<lambda>_. Map.empty"]
  have "mset (the (collect (modLabels kbApple) (\<lambda>_. Map.empty) (\<lambda>xs. xs) rev []))
      = mset (core_rows ''Command'')"
    by (auto simp: super_label_values)
  then show ?thesis using f by (simp add: core_rows_def)
qed

section \<open>Where a row comes from\<close>

lemma spec_rows_origin:
  "c \<in> set (spec_rows lbl a key rk ord specs)
     \<Longrightarrow> \<exists>s\<in>set specs. fmtAccel s lbl = (accel c, True)"
  by (auto simp: spec_rows_def prod_eq_iff)

lemma line_candidates_origin:
  assumes "c \<in> set (line_candidates lbl ko line)"
  shows "\<exists>s\<in>set (line_specs line). fmtAccel s lbl = (accel c, True)"
proof (cases "str_fields line")
  case Nil
  with assms show ?thesis by (simp add: line_candidates_def)
next
  case (Cons schema r1)
  show ?thesis
  proof (cases r1)
    case Nil
    with Cons assms show ?thesis by (simp add: line_candidates_def)
  next
    case c2: (Cons key r2)
    show ?thesis
    proof (cases r2)
      case Nil
      with Cons c2 assms show ?thesis by (simp add: line_candidates_def)
    next
      case c3: (Cons v vs)
      have f: "str_fields line = schema # key # v # vs" using Cons c2 c3 by simp
      show ?thesis
      proof (cases "contains schema ''.custom-keybinding'' \<or> \<not> contains schema ''keybinding''")
        case True
        with assms f show ?thesis by (simp add: line_candidates_def)
      next
        case False
        obtain a rk where cl: "classify schema key = Some (a, rk)"
          using classify_Some [of schema key] by blast
        from assms f False cl
        have "c \<in> set (spec_rows lbl a key rk (orderIdx ko schema key)
                          (quoteRE_find_all (join (v # vs) '' '')))"
          by (simp add: line_candidates_def)
        from spec_rows_origin [OF this] f False show ?thesis
          by (simp add: line_specs_def)
      qed
    qed
  qed
qed

lemma candidates_origin:
  assumes "c \<in> set (candidates lbl ko lines)"
  shows "\<exists>s\<in>set (schema_specs lines). fmtAccel s lbl = (accel c, True)"
proof -
  from assms obtain line where l: "line \<in> set lines" "c \<in> set (line_candidates lbl ko line)"
    by (auto simp: candidates_def)
  from line_candidates_origin [OF l(2)] l(1) show ?thesis
    by (auto simp: schema_specs_def)
qed

lemma retained_is_candidate:
  assumes "map_of (foldl retain [] rs) a = Some r"
  shows "r \<in> set rs \<and> accel r = a"
proof -
  from assms have "winner (filter (\<lambda>r. accel r = a) rs) = Some r"
    by (simp only: map_of_foldl_retain)
  from winner_Some [OF this] show ?thesis by simp
qed

lemma map_of_foldl_custom:
  "map_of (foldl (custom_step lbl) ch cs) a =
     (case map_of ch a of
        Some r \<Rightarrow> Some r
      | None \<Rightarrow>
          (case find (\<lambda>pc. fmtAccel (bind (snd pc)) lbl = (a, True)) cs of
             None \<Rightarrow> None
           | Some pc \<Rightarrow> Some (custom_row a (snd pc))))"
proof (induction cs arbitrary: ch)
  case Nil
  show ?case by (simp split: option.split)
next
  case (Cons pc cs)
  have e: "(fmtAccel (bind (snd pc)) lbl = (a, True))
      = (snd (fmtAccel (bind (snd pc)) lbl) \<and> fst (fmtAccel (bind (snd pc)) lbl) = a)"
    by (cases "fmtAccel (bind (snd pc)) lbl") auto
  show ?case
    by (simp only: foldl_Cons Cons.IH map_of_custom_step find.simps e)
       (simp split: option.split)
qed

lemma map_of_foldl_static_origin:
  "map_of (foldl (static_step lbl) ch ibs) a = Some r
     \<Longrightarrow> map_of ch a = Some r
         \<or> (\<exists>ib\<in>set ibs. fmtAccel (spec (snd ib)) lbl = (a, True)
               \<and> r = static_row a (fst ib) (snd ib))"
proof (induction ibs arbitrary: ch)
  case Nil
  then show ?case by simp
next
  case (Cons ib ibs)
  from Cons.prems have "map_of (foldl (static_step lbl) (static_step lbl ch ib) ibs) a = Some r"
    by simp
  from Cons.IH [OF this] show ?case
  proof
    assume "map_of (static_step lbl ch ib) a = Some r"
    then show ?thesis
      by (cases "fmtAccel (spec (snd ib)) lbl")
         (auto simp: map_of_static_step static_row_def split: if_splits)
  next
    assume "\<exists>ib\<in>set ibs. fmtAccel (spec (snd ib)) lbl = (a, True)
               \<and> r = static_row a (fst ib) (snd ib)"
    then show ?thesis by auto
  qed
qed

lemma resolved_origin:
  assumes vc: "range_order vc"
    and m: "map_of (resolved lbl ko vc lines) a = Some r"
  shows "(r \<in> set (candidates lbl ko lines) \<and> accel r = a)
       \<or> (a \<notin> accel ` set (candidates lbl ko lines)
           \<and> (\<exists>pc\<in>set (customs lines). fmtAccel (bind (snd pc)) lbl = (a, True)
                 \<and> r = custom_row a (snd pc)))
       \<or> (\<exists>i<length coreShortcuts. fmtAccel (spec (coreShortcuts ! i)) lbl = (a, True)
             \<and> r = static_row a i (coreShortcuts ! i))"
proof -
  let ?ch0 = "foldl retain [] (candidates lbl ko lines)"
  let ?ch1 = "foldl (custom_step lbl) ?ch0 (vc (customs lines))"
  from m have "map_of (foldl (static_step lbl) ?ch1 (enumerate 0 coreShortcuts)) a = Some r"
    by (simp only: resolved_def)
  from map_of_foldl_static_origin [OF this] show ?thesis
  proof
    assume m1: "map_of ?ch1 a = Some r"
    show ?thesis
    proof (cases "map_of ?ch0 a")
      case (Some r0)
      with m1 have "r0 = r" by (simp add: map_of_foldl_custom)
      with Some retained_is_candidate [of "candidates lbl ko lines" a r] show ?thesis by simp
    next
      case None
      then have "winner (filter (\<lambda>r. accel r = a) (candidates lbl ko lines)) = None"
        by (simp only: map_of_foldl_retain)
      then have na: "a \<notin> accel ` set (candidates lbl ko lines)"
        by (auto simp: winner_None filter_empty_conv)
      from m1 None obtain pc where
        f: "find (\<lambda>pc. fmtAccel (bind (snd pc)) lbl = (a, True)) (vc (customs lines)) = Some pc"
        and r: "r = custom_row a (snd pc)"
        by (auto simp: map_of_foldl_custom split: option.splits)
      from f have "pc \<in> set (vc (customs lines))" "fmtAccel (bind (snd pc)) lbl = (a, True)"
        by (auto simp: find_Some_iff)
      then have "pc \<in> set (customs lines)" "fmtAccel (bind (snd pc)) lbl = (a, True)"
        by (simp_all add: range_order_set [OF vc])
      with na r show ?thesis by blast
    qed
  next
    assume "\<exists>ib\<in>set (enumerate 0 coreShortcuts). fmtAccel (spec (snd ib)) lbl = (a, True)
               \<and> r = static_row a (fst ib) (snd ib)"
    then obtain i s where "(i, s) \<in> set (enumerate 0 coreShortcuts)"
      "fmtAccel (spec s) lbl = (a, True)" "r = static_row a i s"
      by auto
    then show ?thesis by (auto simp: in_set_enumerate_eq)
  qed
qed

lemma fmtAccel_ok_no_XF86: "fmtAccel s lbl = (a, True) \<Longrightarrow> \<not> contains s ''XF86''"
  by (auto simp: fmtAccel_def)

text \<open>
  C6. Every row that \<open>collect\<close> returns comes from a spec without \<open>XF86\<close>: among
  the specs quoted in the keybinding lines of the dump, the binding specs of the custom
  entries and the static specs there is one that does not contain \<open>XF86\<close> and that
  normalizes to the accelerator of the row. A spec that contains \<open>XF86\<close> is rejected,
  and each of the three loops leaves the map as it is for such a spec.
\<close>

theorem no_row_from_XF86:
  assumes "range_order visit_custom" and "range_order visit_chosen"
  shows "(\<exists>rows. collect lbl keyOrder visit_custom visit_chosen dump = Some rows
            \<and> (\<forall>r\<in>set rows. \<exists>s\<in>origin_specs (scan_lines dump).
                  \<not> contains s ''XF86'' \<and> fmtAccel s lbl = (accel r, True)))
         \<and> (contains s ''XF86''
              \<longrightarrow> fmtAccel s lbl = ([], False)
                  \<and> spec_step lbl a key rk ord chosen s = chosen
                  \<and> custom_step lbl chosen (p, c\<lparr>bind := s\<rparr>) = chosen
                  \<and> static_step lbl chosen (i, sb\<lparr>spec := s\<rparr>) = chosen)"
proof -
  let ?lines = "scan_lines dump"
  let ?res = "resolved lbl keyOrder visit_custom ?lines"
  let ?rows = "visit_chosen (map snd ?res)"
  note ric = row_in_collect [OF assms(2), of lbl keyOrder visit_custom dump]
  have 1: "collect lbl keyOrder visit_custom visit_chosen dump = Some ?rows"
    using ric by simp
  have 2: "\<forall>r\<in>set ?rows. \<exists>s\<in>origin_specs ?lines.
      \<not> contains s ''XF86'' \<and> fmtAccel s lbl = (accel r, True)"
  proof
    fix r assume "r \<in> set ?rows"
    then have m: "map_of ?res (accel r) = Some r" using ric [of r] by simp
    have "\<exists>s\<in>origin_specs ?lines. fmtAccel s lbl = (accel r, True)"
      using resolved_origin [OF assms(1) m]
    proof (elim disjE)
      assume "r \<in> set (candidates lbl keyOrder ?lines) \<and> accel r = accel r"
      then have "\<exists>s\<in>set (schema_specs ?lines). fmtAccel s lbl = (accel r, True)"
        using candidates_origin by blast
      then show ?thesis by (auto simp: origin_specs_def)
    next
      assume "accel r \<notin> accel ` set (candidates lbl keyOrder ?lines)
           \<and> (\<exists>pc\<in>set (customs ?lines). fmtAccel (bind (snd pc)) lbl = (accel r, True)
                 \<and> r = custom_row (accel r) (snd pc))"
      then show ?thesis by (auto simp: origin_specs_def)
    next
      assume "\<exists>i<length coreShortcuts.
          fmtAccel (spec (coreShortcuts ! i)) lbl = (accel r, True)
             \<and> r = static_row (accel r) i (coreShortcuts ! i)"
      then obtain i where i: "i < length coreShortcuts"
        "fmtAccel (spec (coreShortcuts ! i)) lbl = (accel r, True)" by blast
      then have "spec (coreShortcuts ! i) \<in> spec ` set coreShortcuts" by simp
      with i(2) show ?thesis unfolding origin_specs_def by blast
    qed
    then show "\<exists>s\<in>origin_specs ?lines. \<not> contains s ''XF86'' \<and> fmtAccel s lbl = (accel r, True)"
      using fmtAccel_ok_no_XF86 by blast
  qed
  have 3: "contains s ''XF86''
              \<longrightarrow> fmtAccel s lbl = ([], False)
                  \<and> spec_step lbl a key rk ord chosen s = chosen
                  \<and> custom_step lbl chosen (p, c\<lparr>bind := s\<rparr>) = chosen
                  \<and> static_step lbl chosen (i, sb\<lparr>spec := s\<rparr>) = chosen"
    by (simp add: fmtAccel_def spec_step_def custom_step_def static_step_def)
  from 1 2 3 show ?thesis by blast
qed

lemma dump_rank_specs:
  "schema_specs (scan_lines dump_rank) = [''<Super>space'', ''<Super>space'', ''XF86Keyboard'']"
  "contains ''XF86Keyboard'' ''XF86''"
  by code_simp+

text \<open>
  In \<open>dump_rank\<close> the spec \<open>XF86Keyboard\<close> is quoted beside \<open><Super>space\<close>:
  it is rejected and changes nothing, and the row for \<open>Win + Space\<close> has an origin
  without \<open>XF86\<close>.
\<close>

theorem no_row_from_XF86_witness:
  "''XF86Keyboard'' \<in> set (schema_specs (scan_lines dump_rank))
   \<and> contains ''XF86Keyboard'' ''XF86''
   \<and> fmtAccel ''XF86Keyboard'' (modLabels kbPC) = ([], False)
   \<and> spec_step (modLabels kbPC) ''Window Manager'' ''switch-input-source'' 0 0 []
        ''XF86Keyboard'' = []
   \<and> (\<exists>s\<in>origin_specs (scan_lines dump_rank).
         \<not> contains s ''XF86'' \<and> fmtAccel s (modLabels kbPC) = (''Win + Space'', True))"
proof -
  let ?row = "\<lparr>accel = ''Win + Space'', app = ''Window Manager'', action = ''Switch Input Source'',
             rank = 0, order = 1048576\<rparr>"
  note t = no_row_from_XF86 [OF range_order_id range_order_id, of "modLabels kbPC"
      "\<lambda>_. Map.empty" dump_rank "''XF86Keyboard''" "''Window Manager''" "''switch-input-source''"
      0 0 "[]"]
  from t have a: "fmtAccel ''XF86Keyboard'' (modLabels kbPC) = ([], False)"
    "spec_step (modLabels kbPC) ''Window Manager'' ''switch-input-source'' 0 0 []
        ''XF86Keyboard'' = []"
    using dump_rank_specs(2) by blast+
  from t obtain rows where
    "collect (modLabels kbPC) (\<lambda>_. Map.empty) (\<lambda>xs. xs) (\<lambda>xs. xs) dump_rank = Some rows"
    "\<forall>r\<in>set rows. \<exists>s\<in>origin_specs (scan_lines dump_rank).
        \<not> contains s ''XF86'' \<and> fmtAccel s (modLabels kbPC) = (accel r, True)"
    by blast
  moreover from this(1) have "?row \<in> set rows" by (auto simp: collect_dump_rank)
  ultimately have "\<exists>s\<in>origin_specs (scan_lines dump_rank).
        \<not> contains s ''XF86'' \<and> fmtAccel s (modLabels kbPC) = (accel ?row, True)"
    by blast
  then have b: "\<exists>s\<in>origin_specs (scan_lines dump_rank).
        \<not> contains s ''XF86'' \<and> fmtAccel s (modLabels kbPC) = (''Win + Space'', True)"
    by simp
  have c: "''XF86Keyboard'' \<in> set (schema_specs (scan_lines dump_rank))"
    by (simp add: dump_rank_specs(1))
  from c dump_rank_specs(2) a b show ?thesis by (intro conjI)
qed

section \<open>Custom bindings\<close>

lemma customs_distinct_step: "distinct (map fst cm) \<Longrightarrow> distinct (map fst (custom_line cm line))"
  by (simp add: custom_line_def Let_def distinct_update split: list.split)

lemma customs_distinct_foldl:
  "distinct (map fst cm) \<Longrightarrow> distinct (map fst (foldl custom_line cm lines))"
  by (induction lines arbitrary: cm) (simp_all add: customs_distinct_step)

lemma customs_distinct: "distinct (map fst (customs lines))"
  by (simp add: customs_def customs_distinct_foldl)

lemma set_field_bind:
  "bind (set_field c key val) = (if key = ''binding'' then trim val [CHR 0x27] else bind c)"
  by (simp add: set_field_def)

lemma set_field_name:
  "name (set_field c key val) = (if key = ''name'' then trim val [CHR 0x27] else name c)"
  by (simp add: set_field_def)

lemma custom_line_bind:
  assumes "map_of (custom_line cm line) p = Some c" and "bind c \<noteq> []"
  shows "(\<exists>c0. map_of cm p = Some c0 \<and> bind c0 \<noteq> []) \<or> custom_line_for p ''binding'' line"
proof (cases "custom_line cm line = cm")
  case True
  with assms show ?thesis by auto
next
  case False
  then obtain schema key v vs where f: "str_fields line = schema # key # v # vs"
    and cu: "contains schema ''.custom-keybinding''"
    by (auto simp: custom_line_def split: list.splits if_splits)
  let ?p = "drop (nat (index schema '':'' + 1)) schema"
  let ?c = "case map_of cm ?p of None \<Rightarrow> \<lparr>bind = [], name = [], cmd = []\<rparr> | Some c0 \<Rightarrow> c0"
  have e: "custom_line cm line = AList.update ?p (set_field ?c key (join (v # vs) '' '')) cm"
    using f cu by (simp add: custom_line_def Let_def)
  show ?thesis
  proof (cases "p = ?p")
    case False
    with assms(1) e have "map_of cm p = Some c" by (simp add: update_conv')
    with assms(2) show ?thesis by blast
  next
    case True
    with assms(1) e have c: "c = set_field ?c key (join (v # vs) '' '')"
      by (simp add: update_conv')
    show ?thesis
    proof (cases "key = ''binding''")
      case k: True
      with f cu True show ?thesis by (simp add: custom_line_for_def)
    next
      case k: False
      with c assms(2) have "bind ?c \<noteq> []" by (simp add: set_field_bind)
      then obtain c0 where "map_of cm ?p = Some c0" "bind c0 \<noteq> []"
        by (cases "map_of cm ?p") auto
      with True show ?thesis by blast
    qed
  qed
qed

lemma custom_line_name:
  assumes "map_of (custom_line cm line) p = Some c" and "name c \<noteq> []"
  shows "(\<exists>c0. map_of cm p = Some c0 \<and> name c0 \<noteq> []) \<or> custom_line_for p ''name'' line"
proof (cases "custom_line cm line = cm")
  case True
  with assms show ?thesis by auto
next
  case False
  then obtain schema key v vs where f: "str_fields line = schema # key # v # vs"
    and cu: "contains schema ''.custom-keybinding''"
    by (auto simp: custom_line_def split: list.splits if_splits)
  let ?p = "drop (nat (index schema '':'' + 1)) schema"
  let ?c = "case map_of cm ?p of None \<Rightarrow> \<lparr>bind = [], name = [], cmd = []\<rparr> | Some c0 \<Rightarrow> c0"
  have e: "custom_line cm line = AList.update ?p (set_field ?c key (join (v # vs) '' '')) cm"
    using f cu by (simp add: custom_line_def Let_def)
  show ?thesis
  proof (cases "p = ?p")
    case False
    with assms(1) e have "map_of cm p = Some c" by (simp add: update_conv')
    with assms(2) show ?thesis by blast
  next
    case True
    with assms(1) e have c: "c = set_field ?c key (join (v # vs) '' '')"
      by (simp add: update_conv')
    show ?thesis
    proof (cases "key = ''name''")
      case k: True
      with f cu True show ?thesis by (simp add: custom_line_for_def)
    next
      case k: False
      with c assms(2) have "name ?c \<noteq> []" by (simp add: set_field_name)
      then obtain c0 where "map_of cm ?p = Some c0" "name c0 \<noteq> []"
        by (cases "map_of cm ?p") auto
      with True show ?thesis by blast
    qed
  qed
qed

lemma foldl_custom_line_bind:
  assumes "map_of (foldl custom_line cm lines) p = Some c" and "bind c \<noteq> []"
  shows "(\<exists>c0. map_of cm p = Some c0 \<and> bind c0 \<noteq> [])
       \<or> (\<exists>l\<in>set lines. custom_line_for p ''binding'' l)"
  using assms
proof (induction lines arbitrary: c rule: rev_induct)
  case Nil
  then show ?case by auto
next
  case (snoc l ls)
  from snoc.prems have "map_of (custom_line (foldl custom_line cm ls) l) p = Some c" by simp
  from custom_line_bind [OF this snoc.prems(2)] show ?case
  proof
    assume "\<exists>c0. map_of (foldl custom_line cm ls) p = Some c0 \<and> bind c0 \<noteq> []"
    then obtain c0 where "map_of (foldl custom_line cm ls) p = Some c0" "bind c0 \<noteq> []" by blast
    from snoc.IH [OF this] show ?thesis by auto
  next
    assume "custom_line_for p ''binding'' l"
    then show ?thesis by auto
  qed
qed

lemma foldl_custom_line_name:
  assumes "map_of (foldl custom_line cm lines) p = Some c" and "name c \<noteq> []"
  shows "(\<exists>c0. map_of cm p = Some c0 \<and> name c0 \<noteq> [])
       \<or> (\<exists>l\<in>set lines. custom_line_for p ''name'' l)"
  using assms
proof (induction lines arbitrary: c rule: rev_induct)
  case Nil
  then show ?case by auto
next
  case (snoc l ls)
  from snoc.prems have "map_of (custom_line (foldl custom_line cm ls) l) p = Some c" by simp
  from custom_line_name [OF this snoc.prems(2)] show ?case
  proof
    assume "\<exists>c0. map_of (foldl custom_line cm ls) p = Some c0 \<and> name c0 \<noteq> []"
    then obtain c0 where "map_of (foldl custom_line cm ls) p = Some c0" "name c0 \<noteq> []" by blast
    from snoc.IH [OF this] show ?thesis by auto
  next
    assume "custom_line_for p ''name'' l"
    then show ?thesis by auto
  qed
qed

lemma customs_bind_observed:
  assumes "(p, c) \<in> set (customs lines)" and "bind c \<noteq> []"
  shows "\<exists>l\<in>set lines. custom_line_for p ''binding'' l"
proof -
  from assms(1) have "map_of (foldl custom_line [] lines) p = Some c"
    using customs_distinct [of lines] by (simp add: customs_def)
  from foldl_custom_line_bind [OF this assms(2)] show ?thesis by simp
qed

lemma customs_name_unobserved:
  assumes "(p, c) \<in> set (customs lines)" and "\<forall>l\<in>set lines. \<not> custom_line_for p ''name'' l"
  shows "name c = []"
proof (rule ccontr)
  assume n: "name c \<noteq> []"
  from assms(1) have "map_of (foldl custom_line [] lines) p = Some c"
    using customs_distinct [of lines] by (simp add: customs_def)
  from foldl_custom_line_name [OF this n] assms(2) show False by simp
qed

lemma fmtAccel_ok_nonempty: "fmtAccel s lbl = (a, True) \<Longrightarrow> s \<noteq> []"
  by (auto simp: fmtAccel_def)

lemma custom_row_sel [simp]:
  "accel (custom_row a c) = a" "rank (custom_row a c) = 3" "order (custom_row a c) = 0"
  "app (custom_row a c)
     = (if humanise (base (cmd c)) = [] then ''Custom'' else humanise (base (cmd c)))"
  "action (custom_row a c) = (if humanise (name c) = [] then cmd c else humanise (name c))"
  by (simp_all add: custom_row_def Let_def)

lemma humanise_Nil: "humanise [] = []"
  by (simp add: humanise_def str_fields_def replace_all_def)

lemma resolved_custom:
  assumes vc: "range_order vc"
    and c: "(p, c) \<in> set (customs lines)" "fmtAccel (bind c) lbl = (a, True)"
    and na: "a \<notin> accel ` set (candidates lbl ko lines)"
    and ns: "a \<notin> set (static_accels lbl)"
  shows "\<exists>pc\<in>set (customs lines). fmtAccel (bind (snd pc)) lbl = (a, True)
           \<and> map_of (resolved lbl ko vc lines) a = Some (custom_row a (snd pc))"
proof -
  let ?ch0 = "foldl retain [] (candidates lbl ko lines)"
  let ?P = "\<lambda>pc. fmtAccel (bind (snd pc)) lbl = (a, True)"
  from na have "filter (\<lambda>r. accel r = a) (candidates lbl ko lines) = []"
    by (auto simp: filter_empty_conv)
  then have n0: "map_of ?ch0 a = None"
    by (simp only: map_of_foldl_retain) (simp add: winner_def)
  from c have "(p, c) \<in> set (vc (customs lines))" "?P (p, c)"
    by (simp_all add: range_order_set [OF vc])
  then have "find ?P (vc (customs lines)) \<noteq> None"
    by (auto simp: find_None_iff)
  then obtain pc where f: "find ?P (vc (customs lines)) = Some pc" by auto
  then have "pc \<in> set (vc (customs lines))" and ok: "?P pc"
    by (auto simp: find_Some_iff)
  then have mem: "pc \<in> set (customs lines)" by (simp add: range_order_set [OF vc])
  have "map_of (foldl (custom_step lbl) ?ch0 (vc (customs lines))) a
      = Some (custom_row a (snd pc))"
    by (simp only: map_of_foldl_custom n0 f option.case)
  then have "map_of (resolved lbl ko vc lines) a = Some (custom_row a (snd pc))"
    by (simp only: resolved_def map_of_statics_other [OF ns])
  with mem ok show ?thesis by blast
qed

text \<open>
  C9, as amended. A row of a custom binding never takes the place of a schema
  candidate: for an accelerator that has a candidate, the row returned is a candidate or
  a static shortcut. A custom entry whose binding spec normalizes to an accelerator
  that no candidate and no static shortcut has gives this accelerator a custom row in
  the result: its own when no other custom entry normalizes to the same accelerator, and
  otherwise that of one of them. A row returned that is neither a candidate nor a
  static shortcut is the row of a custom entry whose binding spec normalizes and for
  which the dump has a \<open>binding\<close> line. The action of the row of an entry without a
  \<open>name\<close> line is its command text; the application label is the humanised base name
  of the command, or \<open>Custom\<close> when that is empty.
\<close>

theorem custom_fills_unclaimed:
  assumes "range_order visit_custom" and "range_order visit_chosen"
  shows "\<exists>rows. collect lbl keyOrder visit_custom visit_chosen dump = Some rows
           \<and> (\<forall>r\<in>set rows.
                 accel r \<in> accel ` set (candidates lbl keyOrder (scan_lines dump))
                 \<longrightarrow> r \<in> set (candidates lbl keyOrder (scan_lines dump))
                     \<or> (\<exists>i<length coreShortcuts.
                           r = static_row (accel r) i (coreShortcuts ! i)))
           \<and> (\<forall>pc\<in>set (customs (scan_lines dump)). \<forall>a.
                 fmtAccel (bind (snd pc)) lbl = (a, True)
                 \<and> a \<notin> accel ` set (candidates lbl keyOrder (scan_lines dump))
                 \<and> a \<notin> set (static_accels lbl)
                 \<longrightarrow> (\<exists>pc'\<in>set (customs (scan_lines dump)).
                        fmtAccel (bind (snd pc')) lbl = (a, True)
                        \<and> custom_row a (snd pc') \<in> set rows)
                     \<and> ((\<forall>pc'\<in>set (customs (scan_lines dump)).
                            fmtAccel (bind (snd pc')) lbl = (a, True) \<longrightarrow> snd pc' = snd pc)
                          \<longrightarrow> custom_row a (snd pc) \<in> set rows))
           \<and> (\<forall>r\<in>set rows.
                 r \<notin> set (candidates lbl keyOrder (scan_lines dump))
                 \<and> (\<forall>i<length coreShortcuts. r \<noteq> static_row (accel r) i (coreShortcuts ! i))
                 \<longrightarrow> (\<exists>pc\<in>set (customs (scan_lines dump)).
                        r = custom_row (accel r) (snd pc)
                        \<and> fmtAccel (bind (snd pc)) lbl = (accel r, True)
                        \<and> (\<exists>l\<in>set (scan_lines dump). custom_line_for (fst pc) ''binding'' l)))
           \<and> (\<forall>pc\<in>set (customs (scan_lines dump)).
                 (\<forall>l\<in>set (scan_lines dump). \<not> custom_line_for (fst pc) ''name'' l)
                 \<longrightarrow> (\<forall>a. action (custom_row a (snd pc)) = cmd (snd pc)))
           \<and> (\<forall>a c. app (custom_row a c)
                 = (if humanise (base (cmd c)) = [] then ''Custom''
                    else humanise (base (cmd c))))"
proof -
  let ?lines = "scan_lines dump"
  let ?cs = "candidates lbl keyOrder ?lines"
  let ?cm = "customs ?lines"
  let ?res = "resolved lbl keyOrder visit_custom ?lines"
  let ?rows = "visit_chosen (map snd ?res)"
  note ric = row_in_collect [OF assms(2), of lbl keyOrder visit_custom dump]
  have 1: "collect lbl keyOrder visit_custom visit_chosen dump = Some ?rows"
    using ric by simp
  have 2: "\<forall>r\<in>set ?rows. accel r \<in> accel ` set ?cs
      \<longrightarrow> r \<in> set ?cs \<or> (\<exists>i<length coreShortcuts. r = static_row (accel r) i (coreShortcuts ! i))"
  proof (intro ballI impI)
    fix r assume "r \<in> set ?rows" and cl: "accel r \<in> accel ` set ?cs"
    then have "map_of ?res (accel r) = Some r" using ric [of r] by simp
    from resolved_origin [OF assms(1) this] cl
    show "r \<in> set ?cs \<or> (\<exists>i<length coreShortcuts. r = static_row (accel r) i (coreShortcuts ! i))"
      by blast
  qed
  have 3: "\<forall>pc\<in>set ?cm. \<forall>a.
      fmtAccel (bind (snd pc)) lbl = (a, True) \<and> a \<notin> accel ` set ?cs
        \<and> a \<notin> set (static_accels lbl)
      \<longrightarrow> (\<exists>pc'\<in>set ?cm. fmtAccel (bind (snd pc')) lbl = (a, True)
             \<and> custom_row a (snd pc') \<in> set ?rows)
          \<and> ((\<forall>pc'\<in>set ?cm. fmtAccel (bind (snd pc')) lbl = (a, True) \<longrightarrow> snd pc' = snd pc)
               \<longrightarrow> custom_row a (snd pc) \<in> set ?rows)"
  proof (intro ballI allI impI)
    fix pc a
    assume mem: "pc \<in> set ?cm"
      and h: "fmtAccel (bind (snd pc)) lbl = (a, True) \<and> a \<notin> accel ` set ?cs
        \<and> a \<notin> set (static_accels lbl)"
    from mem have mem': "(fst pc, snd pc) \<in> set ?cm" by simp
    from h have ok: "fmtAccel (bind (snd pc)) lbl = (a, True)"
      and na: "a \<notin> accel ` set ?cs" and ns: "a \<notin> set (static_accels lbl)"
      by simp_all
    from resolved_custom [OF assms(1) mem' ok na ns]
    obtain pc' where pc': "pc' \<in> set ?cm" "fmtAccel (bind (snd pc')) lbl = (a, True)"
      and m: "map_of ?res a = Some (custom_row a (snd pc'))"
      by blast
    have in_rows: "custom_row a (snd pc') \<in> set ?rows"
      using ric [of "custom_row a (snd pc')"] m by simp
    show "(\<exists>pc'\<in>set ?cm. fmtAccel (bind (snd pc')) lbl = (a, True)
             \<and> custom_row a (snd pc') \<in> set ?rows)
          \<and> ((\<forall>pc'\<in>set ?cm. fmtAccel (bind (snd pc')) lbl = (a, True) \<longrightarrow> snd pc' = snd pc)
               \<longrightarrow> custom_row a (snd pc) \<in> set ?rows)"
      using pc' in_rows by auto
  qed
  have 4: "\<forall>r\<in>set ?rows.
      r \<notin> set ?cs \<and> (\<forall>i<length coreShortcuts. r \<noteq> static_row (accel r) i (coreShortcuts ! i))
      \<longrightarrow> (\<exists>pc\<in>set ?cm. r = custom_row (accel r) (snd pc)
             \<and> fmtAccel (bind (snd pc)) lbl = (accel r, True)
             \<and> (\<exists>l\<in>set ?lines. custom_line_for (fst pc) ''binding'' l))"
  proof (intro ballI impI)
    fix r
    assume "r \<in> set ?rows"
      and h: "r \<notin> set ?cs
        \<and> (\<forall>i<length coreShortcuts. r \<noteq> static_row (accel r) i (coreShortcuts ! i))"
    then have "map_of ?res (accel r) = Some r" using ric [of r] by simp
    from resolved_origin [OF assms(1) this] h
    obtain pc where pc: "pc \<in> set ?cm" "fmtAccel (bind (snd pc)) lbl = (accel r, True)"
      "r = custom_row (accel r) (snd pc)"
      by blast
    from pc(1) have mem: "(fst pc, snd pc) \<in> set ?cm" by simp
    have "bind (snd pc) \<noteq> []" using pc(2) by (rule fmtAccel_ok_nonempty)
    with mem have "\<exists>l\<in>set ?lines. custom_line_for (fst pc) ''binding'' l"
      by (rule customs_bind_observed)
    with pc show "\<exists>pc\<in>set ?cm. r = custom_row (accel r) (snd pc)
             \<and> fmtAccel (bind (snd pc)) lbl = (accel r, True)
             \<and> (\<exists>l\<in>set ?lines. custom_line_for (fst pc) ''binding'' l)"
      by blast
  qed
  have 5: "\<forall>pc\<in>set ?cm. (\<forall>l\<in>set ?lines. \<not> custom_line_for (fst pc) ''name'' l)
      \<longrightarrow> (\<forall>a. action (custom_row a (snd pc)) = cmd (snd pc))"
  proof (intro ballI impI allI)
    fix pc a
    assume "pc \<in> set ?cm" and n: "\<forall>l\<in>set ?lines. \<not> custom_line_for (fst pc) ''name'' l"
    then have "(fst pc, snd pc) \<in> set ?cm" by simp
    from this n have "name (snd pc) = []" by (rule customs_name_unobserved)
    then show "action (custom_row a (snd pc)) = cmd (snd pc)" by (simp add: humanise_Nil)
  qed
  have 6: "\<forall>a c. app (custom_row a c)
      = (if humanise (base (cmd c)) = [] then ''Custom'' else humanise (base (cmd c)))"
    by simp
  from 1 2 3 4 5 6 show ?thesis by blast
qed

lemma dump_custom_facts:
  "customs (scan_lines dump_custom) =
     [(custom0, \<lparr>bind = ''<Super>t'', name = [], cmd = ''/usr/bin/gnome-terminal''\<rparr>),
      (custom1, \<lparr>bind = ''<Alt>F4'', name = ''my thing'', cmd = ''foo''\<rparr>)]"
  "candidates (modLabels kbPC) (\<lambda>_. Map.empty) (scan_lines dump_custom) =
     [\<lparr>accel = ''Alt + F4'', app = ''Window Manager'', action = ''Close'', rank = 0,
       order = 1048576\<rparr>]"
  "fmtAccel ''<Super>t'' (modLabels kbPC) = (''Win + T'', True)"
  "fmtAccel ''<Alt>F4'' (modLabels kbPC) = (''Alt + F4'', True)"
  "custom_row ''Win + T'' \<lparr>bind = ''<Super>t'', name = [], cmd = ''/usr/bin/gnome-terminal''\<rparr>
     = \<lparr>accel = ''Win + T'', app = ''Gnome Terminal'', action = ''/usr/bin/gnome-terminal'',
        rank = 3, order = 0\<rparr>"
  "map (custom_line_for custom0 ''name'') (scan_lines dump_custom)
     = [False, False, False, False, False, False]"
  by code_simp+

text \<open>
  In \<open>dump_custom\<close> the entry \<open>custom0\<close> binds \<open><Super>t\<close> and has a command
  but no name: its row is returned, with the command as action. The entry
  \<open>custom1\<close> binds \<open><Alt>F4\<close>, which a schema has: its row is not returned.
\<close>

theorem custom_fills_unclaimed_witness:
  "\<lparr>accel = ''Win + T'', app = ''Gnome Terminal'', action = ''/usr/bin/gnome-terminal'',
     rank = 3, order = 0\<rparr>
     \<in> set (the (collect (modLabels kbPC) (\<lambda>_. Map.empty) rev (\<lambda>xs. xs) dump_custom))
   \<and> custom_row ''Alt + F4'' \<lparr>bind = ''<Alt>F4'', name = ''my thing'', cmd = ''foo''\<rparr>
     \<notin> set (the (collect (modLabels kbPC) (\<lambda>_. Map.empty) rev (\<lambda>xs. xs) dump_custom))
   \<and> (\<exists>l\<in>set (scan_lines dump_custom). custom_line_for custom0 ''binding'' l)"
proof -
  let ?c0 = "\<lparr>bind = ''<Super>t'', name = [], cmd = ''/usr/bin/gnome-terminal''\<rparr>"
  let ?c1 = "\<lparr>bind = ''<Alt>F4'', name = ''my thing'', cmd = ''foo''\<rparr>"
  let ?cl = "\<lparr>accel = ''Alt + F4'', app = ''Window Manager'', action = ''Close'', rank = 0,
       order = 1048576\<rparr>"
  let ?cs = "candidates (modLabels kbPC) (\<lambda>_. Map.empty) (scan_lines dump_custom)"
  let ?cm = "customs (scan_lines dump_custom)"
  have r: "range_order (rev :: (string \<times> custom) list \<Rightarrow> (string \<times> custom) list)"
    by (simp add: range_order_def)
  from custom_fills_unclaimed [OF r range_order_id, of "modLabels kbPC" "\<lambda>_. Map.empty"
      dump_custom]
  obtain rows where rows: "collect (modLabels kbPC) (\<lambda>_. Map.empty) rev (\<lambda>xs. xs) dump_custom
      = Some rows"
    and keep: "\<forall>r\<in>set rows. accel r \<in> accel ` set ?cs
        \<longrightarrow> r \<in> set ?cs
            \<or> (\<exists>i<length coreShortcuts. r = static_row (accel r) i (coreShortcuts ! i))"
    and fill: "\<forall>pc\<in>set ?cm. \<forall>a.
        fmtAccel (bind (snd pc)) (modLabels kbPC) = (a, True) \<and> a \<notin> accel ` set ?cs
          \<and> a \<notin> set (static_accels (modLabels kbPC))
        \<longrightarrow> (\<exists>pc'\<in>set ?cm. fmtAccel (bind (snd pc')) (modLabels kbPC) = (a, True)
               \<and> custom_row a (snd pc') \<in> set rows)
            \<and> ((\<forall>pc'\<in>set ?cm. fmtAccel (bind (snd pc')) (modLabels kbPC) = (a, True)
                    \<longrightarrow> snd pc' = snd pc)
                 \<longrightarrow> custom_row a (snd pc) \<in> set rows)"
    and seen: "\<forall>r\<in>set rows.
        r \<notin> set ?cs \<and> (\<forall>i<length coreShortcuts. r \<noteq> static_row (accel r) i (coreShortcuts ! i))
        \<longrightarrow> (\<exists>pc\<in>set ?cm. r = custom_row (accel r) (snd pc)
               \<and> fmtAccel (bind (snd pc)) (modLabels kbPC) = (accel r, True)
               \<and> (\<exists>l\<in>set (scan_lines dump_custom). custom_line_for (fst pc) ''binding'' l))"
    by blast
  have h: "(custom0, ?c0) \<in> set ?cm"
    "fmtAccel (bind (snd (custom0, ?c0))) (modLabels kbPC) = (''Win + T'', True)
       \<and> ''Win + T'' \<notin> accel ` set ?cs
       \<and> ''Win + T'' \<notin> set (static_accels (modLabels kbPC))"
    by (simp_all add: dump_custom_facts static_accels_pc)
  from fill h
  have "(\<forall>pc'\<in>set ?cm. fmtAccel (bind (snd pc')) (modLabels kbPC) = (''Win + T'', True)
            \<longrightarrow> snd pc' = snd (custom0, ?c0))
        \<longrightarrow> custom_row ''Win + T'' (snd (custom0, ?c0)) \<in> set rows"
    by blast
  then have in0: "custom_row ''Win + T'' ?c0 \<in> set rows"
    by (simp add: dump_custom_facts(1,3,4))
  then have 1: "\<lparr>accel = ''Win + T'', app = ''Gnome Terminal'',
      action = ''/usr/bin/gnome-terminal'', rank = 3, order = 0\<rparr> \<in> set rows"
    by (simp only: dump_custom_facts(5))
  have 2: "custom_row ''Alt + F4'' ?c1 \<notin> set rows"
  proof
    assume "custom_row ''Alt + F4'' ?c1 \<in> set rows"
    with keep have "custom_row ''Alt + F4'' ?c1 = ?cl
        \<or> (\<exists>i<length coreShortcuts.
              custom_row ''Alt + F4'' ?c1 = static_row ''Alt + F4'' i (coreShortcuts ! i))"
      by (auto simp: dump_custom_facts(2))
    then have "rank (custom_row ''Alt + F4'' ?c1) = 0 \<or> rank (custom_row ''Alt + F4'' ?c1) = -1"
      by (auto dest!: arg_cong [where f = rank] simp: static_row_def)
    then show False by simp
  qed
  have n0: "custom_row ''Win + T'' ?c0 \<notin> set ?cs"
    by (auto simp: dump_custom_facts(2) dest!: arg_cong [where f = rank])
  have n1: "\<forall>i<length coreShortcuts.
      custom_row ''Win + T'' ?c0
        \<noteq> static_row (accel (custom_row ''Win + T'' ?c0)) i (coreShortcuts ! i)"
    by (auto simp: static_row_def dest!: arg_cong [where f = rank])
  from seen in0 n0 n1
  obtain pc where pc: "pc \<in> set ?cm"
    "fmtAccel (bind (snd pc)) (modLabels kbPC) = (accel (custom_row ''Win + T'' ?c0), True)"
    "\<exists>l\<in>set (scan_lines dump_custom). custom_line_for (fst pc) ''binding'' l"
    by blast
  from pc(1,2) have "fst pc = custom0"
    by (auto simp: dump_custom_facts(1,3,4))
  with pc(3) have 3: "\<exists>l\<in>set (scan_lines dump_custom). custom_line_for custom0 ''binding'' l"
    by simp
  from 1 2 3 show ?thesis by (simp only: rows option.sel simp_thms)
qed

lemma collect_dump_conflict:
  "collect (modLabels kbPC) (\<lambda>_. Map.empty) (\<lambda>xs. xs) (\<lambda>xs. xs) dump_conflict =
     Some [\<lparr>accel = ''Win + Left'', app = ''Window Manager'', action = ''Tile Window Left'',
             rank = - 1, order = 1\<rparr>,
           \<lparr>accel = ''Win + Up'', app = ''Window Manager'', action = ''Maximise Window'',
             rank = - 1, order = 3\<rparr>,
           \<lparr>accel = ''Win'', app = ''Window Manager'', action = ''Show Activities / Search'',
             rank = - 1, order = 0\<rparr>,
           \<lparr>accel = ''Win + Right'', app = ''Window Manager'', action = ''Tile Window Right'',
             rank = - 1, order = 2\<rparr>,
           \<lparr>accel = ''Win + Down'', app = ''Window Manager'',
             action = ''Restore / Minimise Window'', rank = - 1, order = 4\<rparr>]"
  by code_simp

text \<open>
  C9 as first stated fails where a static shortcut has the accelerator of the custom
  binding. In \<open>dump_conflict\<close> the custom entry binds \<open><Super>Up\<close>, which
  normalizes to \<open>Win + Up\<close> under the PC labels; no schema candidate has this
  accelerator; the rows returned are five rows of the window manager with rank -1, and
  the row of the custom entry is not among them.
\<close>

theorem custom_unclaimed_absent_counterexample:
  "(custom0, \<lparr>bind = ''<Super>Up'', name = [], cmd = ''xterm''\<rparr>)
     \<in> set (customs (scan_lines dump_conflict))
   \<and> fmtAccel ''<Super>Up'' (modLabels kbPC) = (''Win + Up'', True)
   \<and> ''Win + Up'' \<notin> accel ` set (candidates (modLabels kbPC) (\<lambda>_. Map.empty)
        (scan_lines dump_conflict))
   \<and> map (\<lambda>r. (accel r, app r, rank r))
        (the (collect (modLabels kbPC) (\<lambda>_. Map.empty) (\<lambda>xs. xs) (\<lambda>xs. xs) dump_conflict))
      = [(''Win + Left'', ''Window Manager'', -1), (''Win + Up'', ''Window Manager'', -1),
         (''Win'', ''Window Manager'', -1), (''Win + Right'', ''Window Manager'', -1),
         (''Win + Down'', ''Window Manager'', -1)]
   \<and> custom_row ''Win + Up'' \<lparr>bind = ''<Super>Up'', name = [], cmd = ''xterm''\<rparr>
     \<notin> set (the (collect (modLabels kbPC) (\<lambda>_. Map.empty) (\<lambda>xs. xs) (\<lambda>xs. xs) dump_conflict))"
proof -
  have "custom_row ''Win + Up'' \<lparr>bind = ''<Super>Up'', name = [], cmd = ''xterm''\<rparr>
     \<notin> set (the (collect (modLabels kbPC) (\<lambda>_. Map.empty) (\<lambda>xs. xs) (\<lambda>xs. xs) dump_conflict))"
  proof
    assume "custom_row ''Win + Up'' \<lparr>bind = ''<Super>Up'', name = [], cmd = ''xterm''\<rparr>
     \<in> set (the (collect (modLabels kbPC) (\<lambda>_. Map.empty) (\<lambda>xs. xs) (\<lambda>xs. xs) dump_conflict))"
    then have "rank (custom_row ''Win + Up'' \<lparr>bind = ''<Super>Up'', name = [], cmd = ''xterm''\<rparr>)
        = -1"
      unfolding collect_dump_conflict by (auto dest!: arg_cong [where f = rank])
    then show False by simp
  qed
  then show ?thesis
    by (simp add: dump_conflict_facts collect_dump_conflict)
qed

section \<open>The earlier version keeps conflicting rows\<close>

lemma collect_v1_dump_rank:
  "collect_v1 (modLabels kbPC) (\<lambda>xs. xs) (\<lambda>xs. xs) dump_rank =
     Some [\<lparr>accel = ''Win + Space'', app = ''App'', action = ''Do Thing'', rank = 3,
             order = 1000\<rparr>,
           \<lparr>accel = ''Win + Space'', app = ''Window Manager'', action = ''Switch Input Source'',
             rank = 1, order = 1000\<rparr>,
           \<lparr>accel = ''Win'', app = ''Window Manager'', action = ''Show Activities / Search'',
             rank = 0, order = 0\<rparr>,
           \<lparr>accel = ''Win + Left'', app = ''Window Manager'', action = ''Tile Window Left'',
             rank = 0, order = 1\<rparr>,
           \<lparr>accel = ''Win + Right'', app = ''Window Manager'', action = ''Tile Window Right'',
             rank = 0, order = 2\<rparr>,
           \<lparr>accel = ''Win + Up'', app = ''Window Manager'', action = ''Maximise Window'',
             rank = 0, order = 3\<rparr>,
           \<lparr>accel = ''Win + Down'', app = ''Window Manager'',
             action = ''Restore / Minimise Window'', rank = 0, order = 4\<rparr>]"
  by code_simp

lemma collect_v1_repeats_accel:
  "\<not> distinct (map accel (the (collect_v1 (modLabels kbPC) (\<lambda>xs. xs) (\<lambda>xs. xs) dump_rank)))"
  by (simp add: collect_v1_dump_rank)

end
